theory Spec2Isabelle
  imports Main "HOL-Library.Sublist"
begin

section \<open>The generic helper module of the storage console frontend\<close>

text \<open>
  This theory embeds the algorithmic routines of \<^verbatim>\<open>src/webapps/frontend/lib/ovs/generic.js\<close>:
  the binary searches patched onto \<^verbatim>\<open>Array.prototype\<close> (\<^verbatim>\<open>getItemUnwrap\<close>, \<^verbatim>\<open>brSearch\<close>,
  \<^verbatim>\<open>brSearchFirst\<close>, \<^verbatim>\<open>brSearchLast\<close>), the two array comparisons (\<^verbatim>\<open>Array.prototype.equals\<close>,
  \<^verbatim>\<open>arrayEquals\<close>), \<^verbatim>\<open>objectEquals\<close>, \<^verbatim>\<open>crossFiller\<close> and \<^verbatim>\<open>merge\<close>.

  JavaScript is untyped; the embedding fixes the following reading of its values.
  \<^item> A compared value is \<open>Undefined\<close>, \<open>NaN\<close>, or \<open>Val a\<close> with \<open>a\<close> drawn from a type \<open>'a\<close>
    that stands for the remaining values (numbers other than \<open>NaN\<close>, strings, booleans,
    references). \<open>===\<close> is equality, except that \<open>NaN\<close> is not strictly equal to itself.
    The relational operators are those of \<open>'a\<close> on two \<open>Val\<close>s and false as soon as one
    side is \<open>undefined\<close> or \<open>NaN\<close> (\<open>undefined\<close> converts to \<open>NaN\<close>, and every comparison
    with \<open>NaN\<close> is false). Nothing is assumed about the order of \<open>'a\<close> unless a statement
    asks for a linear order.
  \<^item> \<^verbatim>\<open>ko.unwrapObservable\<close> reads through a Knockout observable and returns any other
    value unchanged; the embedding stores the value that is read.
  \<^item> A property read consults the own fields of a record only; a field that is absent
    reads as \<open>undefined\<close>. Reading a property of \<open>undefined\<close> or \<open>null\<close> raises a
    \<open>TypeError\<close>, which the embedding returns as \<open>Inl TypeError\<close>.
  \<^item> Indices and bounds are integers.
\<close>

subsection \<open>Values\<close>

datatype 'a jsval = Undefined | NaN | Val 'a

text \<open>Strict equality \<open>x === y\<close>.\<close>

fun strict_eq :: "'a jsval \<Rightarrow> 'a jsval \<Rightarrow> bool" where
  "strict_eq NaN y = False"
| "strict_eq x NaN = False"
| "strict_eq x y = (x = y)"

text \<open>The relational operators \<open>x < y\<close>, \<open>x > y\<close> and \<open>x <= y\<close>.\<close>

fun js_lt :: "'a::ord jsval \<Rightarrow> 'a jsval \<Rightarrow> bool" where
  "js_lt (Val a) (Val b) = (a < b)"
| "js_lt x y = False"

definition js_gt :: "'a::ord jsval \<Rightarrow> 'a jsval \<Rightarrow> bool" where
  "js_gt x y = js_lt y x"

fun js_le :: "'a::ord jsval \<Rightarrow> 'a jsval \<Rightarrow> bool" where
  "js_le (Val a) (Val b) = (\<not> b < a)"
| "js_le x y = False"

datatype error = TypeError

text \<open>A plain record: its own fields.\<close>

type_synonym 'a jsrecord = "string \<rightharpoonup> 'a jsval"

definition getProperty :: "'a jsrecord \<Rightarrow> string \<Rightarrow> 'a jsval" where
  "getProperty obj prop = (case obj prop of None \<Rightarrow> Undefined | Some v \<Rightarrow> v)"

subsection \<open>Ordered search\<close>

text \<open>
  The receiver of a search together with the optional argument \<^verbatim>\<open>prop\<close>. \<open>Plain xs\<close> is
  an array searched without \<^verbatim>\<open>prop\<close>: its elements are compared themselves. \<open>Keyed xs prop\<close>
  is an array searched with the field name \<^verbatim>\<open>prop\<close>: a slot holds a record (\<open>Some\<close>), or
  \<open>undefined\<close> or \<open>null\<close> (\<open>None\<close>), which has no properties.
\<close>

datatype 'a array = Plain "'a jsval list" | Keyed "'a jsrecord option list" string

fun alength :: "'a array \<Rightarrow> nat" where
  "alength (Plain xs) = length xs"
| "alength (Keyed xs prop) = length xs"

text \<open>\<^verbatim>\<open>this.slice(begin, end)\<close> for \<open>0 \<le> begin\<close> and \<open>0 \<le> end\<close>.\<close>

fun slice :: "'a array \<Rightarrow> nat \<Rightarrow> nat \<Rightarrow> 'a array" where
  "slice (Plain xs) begin end = Plain (take (end - begin) (drop begin xs))"
| "slice (Keyed xs prop) begin end = Keyed (take (end - begin) (drop begin xs)) prop"

text \<open>
  \<^verbatim>\<open>Array.prototype.getItemUnwrap\<close> (lines 48-58): \<open>undefined\<close> outside the bounds, the
  element inside them, and with \<^verbatim>\<open>prop\<close> the element's field.
\<close>

fun getItemUnwrap :: "'a array \<Rightarrow> int \<Rightarrow> error + 'a jsval" where
  "getItemUnwrap (Plain xs) index =
     (if index > int (length xs) - 1 \<or> index < 0 then Inr Undefined
      else Inr (xs ! nat index))"
| "getItemUnwrap (Keyed xs prop) index =
     (if index > int (length xs) - 1 \<or> index < 0 then Inr Undefined
      else (case xs ! nat index of
              None \<Rightarrow> Inl TypeError
            | Some foundItem \<Rightarrow> Inr (getProperty foundItem prop)))"

text \<open>\<^verbatim>\<open>Array.prototype.brSearch\<close> (lines 68-88).\<close>

function brSearch :: "'a::ord array \<Rightarrow> 'a jsval \<Rightarrow> error + int" where
  "brSearch this val =
     (if alength this = 0 then Inr (- 1)
      else
        (let middleIndex = alength this div 2 in
         case getItemUnwrap this (int middleIndex) of
           Inl e \<Rightarrow> Inl e
         | Inr middleItem \<Rightarrow>
             if alength this = 1 \<and> \<not> strict_eq middleItem val then Inr (- 1)
             else if strict_eq val middleItem then Inr (int middleIndex)
             else if js_gt val middleItem then
               (case brSearch (slice this (middleIndex + 1) (alength this)) val of
                  Inl e \<Rightarrow> Inl e
                | Inr additionalIndex \<Rightarrow>
                    if additionalIndex = - 1 then Inr (- 1)
                    else Inr (int middleIndex + 1 + additionalIndex))
             else brSearch (slice this 0 middleIndex) val))"
  by pat_completeness auto

lemma alength_slice: "alength (slice this b e) = min (e - b) (alength this - b)"
  by (cases this) auto

termination brSearch
  by (relation "measure (\<lambda>(this, val). alength this)") (auto simp: alength_slice)

text \<open>
  \<^verbatim>\<open>Array.prototype.brSearchFirst\<close> (lines 100-117). An omitted bound is \<open>None\<close>; the
  recursive calls pass both bounds. \<^verbatim>\<open>Math.floor(start + (end - start) / 2)\<close> is
  \<open>start + (end - start) div 2\<close> on integers.
\<close>

function brSearchFirst ::
  "'a::ord array \<Rightarrow> 'a jsval \<Rightarrow> int option \<Rightarrow> int option \<Rightarrow> error + int" where
  "brSearchFirst this val start0 end0 =
     (let start = (case start0 of None \<Rightarrow> 0 | Some s \<Rightarrow> s);
          end = (case end0 of None \<Rightarrow> int (alength this) - 1 | Some e \<Rightarrow> e)
      in
        if end < start then Inr (- 1)
        else
          (let middleIndex = start + (end - start) div 2 in
           case getItemUnwrap this middleIndex of
             Inl e \<Rightarrow> Inl e
           | Inr middleItem \<Rightarrow>
               (case getItemUnwrap this (middleIndex - 1) of
                  Inl e \<Rightarrow> Inl e
                | Inr previousItem \<Rightarrow>
                    if (previousItem = Undefined \<or> js_gt val previousItem)
                       \<and> strict_eq middleItem val
                    then Inr middleIndex
                    else if js_gt val middleItem
                    then brSearchFirst this val (Some (middleIndex + 1)) (Some end)
                    else brSearchFirst this val (Some start) (Some (middleIndex - 1)))))"
  by pat_completeness auto

termination brSearchFirst
  by (relation "measure (\<lambda>(this, val, start0, end0).
           nat ((case end0 of None \<Rightarrow> int (alength this) - 1 | Some e \<Rightarrow> e)
                - (case start0 of None \<Rightarrow> 0 | Some s \<Rightarrow> s) + 1))")
     (auto split: option.splits)

text \<open>\<^verbatim>\<open>Array.prototype.brSearchLast\<close> (lines 129-146).\<close>

function brSearchLast ::
  "'a::ord array \<Rightarrow> 'a jsval \<Rightarrow> int option \<Rightarrow> int option \<Rightarrow> error + int" where
  "brSearchLast this val start0 end0 =
     (let start = (case start0 of None \<Rightarrow> 0 | Some s \<Rightarrow> s);
          end = (case end0 of None \<Rightarrow> int (alength this) - 1 | Some e \<Rightarrow> e)
      in
        if end < start then Inr (- 1)
        else
          (let middleIndex = start + (end - start) div 2 in
           case getItemUnwrap this middleIndex of
             Inl e \<Rightarrow> Inl e
           | Inr middleItem \<Rightarrow>
               (case getItemUnwrap this (middleIndex + 1) of
                  Inl e \<Rightarrow> Inl e
                | Inr nextItem \<Rightarrow>
                    if (nextItem = Undefined \<or> js_lt val nextItem)
                       \<and> strict_eq middleItem val
                    then Inr middleIndex
                    else if js_lt val middleItem
                    then brSearchLast this val (Some start) (Some (middleIndex - 1))
                    else brSearchLast this val (Some (middleIndex + 1)) (Some end))))"
  by pat_completeness auto

termination brSearchLast
  by (relation "measure (\<lambda>(this, val, start0, end0).
           nat ((case end0 of None \<Rightarrow> int (alength this) - 1 | Some e \<Rightarrow> e)
                - (case start0 of None \<Rightarrow> 0 | Some s \<Rightarrow> s) + 1))")
     (auto split: option.splits)

declare brSearch.simps [simp del] brSearchFirst.simps [simp del] brSearchLast.simps [simp del]

text \<open>
  The vocabulary of the statements about the searches. \<open>readable\<close>: every slot of a keyed
  array holds a record, so that every property read succeeds. \<open>itemValues\<close>: the values
  the search compares, slot by slot. \<open>sortedSeq\<close>: these values are in non-decreasing
  order under JavaScript's \<open><=\<close>.
\<close>

fun readable :: "'a array \<Rightarrow> bool" where
  "readable (Plain xs) = True"
| "readable (Keyed xs prop) = list_all (\<lambda>x. x \<noteq> None) xs"

fun itemValues :: "'a array \<Rightarrow> 'a jsval list" where
  "itemValues (Plain xs) = xs"
| "itemValues (Keyed xs prop) =
     map (\<lambda>x. case x of None \<Rightarrow> Undefined | Some obj \<Rightarrow> getProperty obj prop) xs"

definition sortedSeq :: "'a::ord array \<Rightarrow> bool" where
  "sortedSeq this = (readable this \<and> sorted_wrt js_le (itemValues this))"

subsection \<open>Structural equality of arrays\<close>

text \<open>
  An array element is itself an array (\<^verbatim>\<open>instanceof Array\<close>) or any other value. The two
  comparisons never look at the identity of an array: two arrays at the same position are
  compared by recursion, and an array is never \<open>===\<close> to a value that is not an array.
\<close>

datatype 'a element = Atom "'a jsval" | Array "'a element list"

text \<open>\<^verbatim>\<open>xs[i]\<close>: reading past the end of an array gives \<open>undefined\<close>.\<close>

definition at :: "'a element list \<Rightarrow> nat \<Rightarrow> 'a element" where
  "at xs i = (if i < length xs then xs ! i else Atom Undefined)"

lemma size_at: "at xs i = Array a \<Longrightarrow> size_list size a < size_list size xs"
proof -
  assume a: "at xs i = Array a"
  then have "i < length xs" "xs ! i = Array a" by (auto simp: at_def split: if_splits)
  then have "Array a \<in> set xs" by (metis nth_mem)
  then have "size (Array a) \<le> size_list size xs" by (rule size_list_estimation') simp
  then show ?thesis by simp
qed

text \<open>
  \<^verbatim>\<open>arrayEquals\<close> (lines 624-643) with its \<^verbatim>\<open>for\<close> loop, the counter \<open>i\<close> made explicit.
  Both arguments are arrays, and an array is truthy, so the guard \<^verbatim>\<open>!array2\<close> of line 626
  never fires.
\<close>

function arrayEquals :: "'a element list \<Rightarrow> 'a element list \<Rightarrow> bool"
  and arrayEquals_loop :: "'a element list \<Rightarrow> 'a element list \<Rightarrow> nat \<Rightarrow> bool"
where
  "arrayEquals array1 array2 =
     (if length array1 \<noteq> length array2 then False
      else arrayEquals_loop array1 array2 0)"
| "arrayEquals_loop array1 array2 i =
     (if i < length array1 then
        (case (at array1 i, at array2 i) of
           (Array a, Array b) \<Rightarrow>
             if \<not> arrayEquals a b then False
             else arrayEquals_loop array1 array2 (i + 1)
         | (Atom x, Atom y) \<Rightarrow>
             if \<not> strict_eq x y then False
             else arrayEquals_loop array1 array2 (i + 1)
         | _ \<Rightarrow> False)
      else True)"
  by pat_completeness auto

termination
  by (relation "measures [
        (\<lambda>x. case x of Inl (a1, a2) \<Rightarrow> size_list size a1 | Inr (a1, a2, i) \<Rightarrow> size_list size a1),
        (\<lambda>x. case x of Inl _ \<Rightarrow> 1 | Inr _ \<Rightarrow> 0),
        (\<lambda>x. case x of Inl _ \<Rightarrow> 0 | Inr (a1, a2, i) \<Rightarrow> length a1 - i)]")
     (auto dest: size_at[OF sym])

text \<open>
  \<^verbatim>\<open>Array.prototype.equals\<close> (lines 152-170): the same loop over the receiver, with
  \<^verbatim>\<open>arrayEquals\<close> for nested arrays.
\<close>

function equals_loop :: "'a element list \<Rightarrow> 'a element list \<Rightarrow> nat \<Rightarrow> bool" where
  "equals_loop this other i =
     (if i < length this then
        (case (at this i, at other i) of
           (Array a, Array b) \<Rightarrow>
             if \<not> arrayEquals a b then False
             else equals_loop this other (i + 1)
         | (Atom x, Atom y) \<Rightarrow>
             if \<not> strict_eq x y then False
             else equals_loop this other (i + 1)
         | _ \<Rightarrow> False)
      else True)"
  by pat_completeness auto

termination
  by (relation "measure (\<lambda>(this, other, i). length this - i)") auto

definition equals :: "'a element list \<Rightarrow> 'a element list \<Rightarrow> bool" where
  "equals this other =
     (if length this \<noteq> length other then False else equals_loop this other 0)"

declare arrayEquals.simps [simp del] arrayEquals_loop.simps [simp del]
  equals_loop.simps [simp del]

text \<open>No \<open>NaN\<close> at any depth of nesting.\<close>

fun nanFree :: "'a element \<Rightarrow> bool" where
  "nanFree (Atom x) = (x \<noteq> NaN)"
| "nanFree (Array xs) = list_all nanFree xs"

subsection \<open>Structural equality of objects\<close>

text \<open>
  The arguments of \<^verbatim>\<open>objectEquals\<close>: a primitive value, \<open>null\<close>, an object or a function.
  An object has a reference (its identity, which \<open>===\<close> compares), a constructor and its
  own enumerable fields in the order \<^verbatim>\<open>for ... in\<close> visits them; an array is an object
  whose fields are its indices. A function has a reference and no enumerable field of its
  own.
\<close>

datatype 'a jsany =
    Primitive "'a jsval"
  | Null
  | Object nat string "(string \<times> 'a jsany) list"
  | Function nat

fun strictEquals :: "'a jsany \<Rightarrow> 'a jsany \<Rightarrow> bool" where
  "strictEquals (Primitive x) (Primitive y) = strict_eq x y"
| "strictEquals Null Null = True"
| "strictEquals (Object r1 c1 fs1) (Object r2 c2 fs2) = (r1 = r2)"
| "strictEquals (Function r1) (Function r2) = (r1 = r2)"
| "strictEquals x y = False"

text \<open>\<^verbatim>\<open>typeof x === "object"\<close>, which holds of \<open>null\<close> and not of a function.\<close>

fun typeofObject :: "'a jsany \<Rightarrow> bool" where
  "typeofObject (Primitive x) = False"
| "typeofObject Null = True"
| "typeofObject (Object r c fs) = True"
| "typeofObject (Function r) = False"

text \<open>
  \<^verbatim>\<open>x instanceof Object\<close>: the constructor and the own enumerable fields of \<open>x\<close> when it
  holds (of an object and of a function), \<open>None\<close> when it does not.
\<close>

fun asObject :: "'a jsany \<Rightarrow> (string \<times> (string \<times> 'a jsany) list) option" where
  "asObject (Object r c fs) = Some (c, fs)"
| "asObject (Function r) = Some (''Function'', [])"
| "asObject x = None"

text \<open>\<^verbatim>\<open>obj.hasOwnProperty(p)\<close> and \<^verbatim>\<open>obj[p]\<close> on the own fields.\<close>

definition hasOwn :: "(string \<times> 'v) list \<Rightarrow> string \<Rightarrow> bool" where
  "hasOwn fs p = (map_of fs p \<noteq> None)"

definition getOwn :: "(string \<times> 'a jsany) list \<Rightarrow> string \<Rightarrow> 'a jsany" where
  "getOwn fs p = (case map_of fs p of None \<Rightarrow> Primitive Undefined | Some v \<Rightarrow> v)"

lemma size_getOwn:
  assumes "asObject x = Some (c, fs)" "(p, v0) \<in> set fs"
  shows "size (getOwn fs p) < size x"
proof -
  from assms(2) obtain v where v: "map_of fs p = Some v"
    by (metis weak_map_of_SomeI)
  then have "(p, v) \<in> set fs" by (rule map_of_SomeD)
  then have "size_prod (\<lambda>_. 0) size (p, v) \<le> size_list (size_prod (\<lambda>_. 0) size) fs"
    by (rule size_list_estimation') simp
  moreover from assms obtain r where "x = Object r c fs" by (cases x) auto
  ultimately show ?thesis using v by (simp add: getOwn_def)
qed

text \<open>
  \<^verbatim>\<open>objectEquals\<close> (lines 761-804). The pattern \<open>(Some _, Some _)\<close> is the test that both
  arguments are \<^verbatim>\<open>instanceof Object\<close>; the first \<open>list_all\<close> is the loop over the fields of
  \<^verbatim>\<open>object1\<close>, the second the loop over those of \<^verbatim>\<open>object2\<close>. Each loop returns \<^verbatim>\<open>false\<close>
  at the first field that fails, which is the conjunction over the fields.
\<close>

function objectEquals :: "'a jsany \<Rightarrow> 'a jsany \<Rightarrow> bool" where
  "objectEquals object1 object2 =
     (if strictEquals object1 object2 then True
      else
        (case (asObject object1, asObject object2) of
           (Some (c1, fs1), Some (c2, fs2)) \<Rightarrow>
             if c1 \<noteq> c2 then False
             else
               list_all (\<lambda>p.
                   if \<not> hasOwn fs2 p then False
                   else if strictEquals (getOwn fs1 p) (getOwn fs2 p) then True
                   else if \<not> typeofObject (getOwn fs1 p) then False
                   else objectEquals (getOwn fs1 p) (getOwn fs2 p))
                 (map fst fs1)
               \<and> list_all (\<lambda>p. \<not> (hasOwn fs2 p \<and> \<not> hasOwn fs1 p)) (map fst fs2)
         | _ \<Rightarrow> False))"
  by pat_completeness auto

termination
  apply (relation "measure (\<lambda>(object1, object2). size object1)")
   apply simp
  apply (auto dest: size_getOwn[OF sym])
  done

declare objectEquals.simps [simp del]

subsection \<open>Cross-fill\<close>

text \<open>
  jQuery's \<^verbatim>\<open>$.inArray(elem, arr)\<close>: the first index at which \<^verbatim>\<open>arr\<close> holds a value
  strictly equal to \<^verbatim>\<open>elem\<close>, or \<open>-1\<close>. Keys are identifiers (strings, or numbers other
  than \<open>NaN\<close>), on which \<open>===\<close> is equality.
\<close>

fun inArray :: "'k \<Rightarrow> 'k list \<Rightarrow> int" where
  "inArray elem [] = - 1"
| "inArray elem (x # xs) =
     (if elem = x then 0
      else (let r = inArray elem xs in if r = - 1 then - 1 else r + 1))"

text \<open>
  What \<^verbatim>\<open>crossFiller\<close> works on: the contents of the observable array \<^verbatim>\<open>objectList\<close>, the
  state of the loader (a loader may allocate a new object at each call), and the keys the
  loader has been called with, in order. The loader does not touch the array.
\<close>

record ('k, 'o, 's) filling =
  objects :: "'o list"
  loaderState :: 's
  loaderCalls :: "'k list"

text \<open>
  The loop over \<^verbatim>\<open>newKeyList\<close> (lines 520-529). A loader that returns \<open>undefined\<close>
  returns \<open>None\<close>.
\<close>

fun addLoop ::
  "('k \<Rightarrow> 's \<Rightarrow> 'o option \<times> 's) \<Rightarrow> 'k list \<Rightarrow> 'k list \<Rightarrow> ('k, 'o, 's) filling
   \<Rightarrow> ('k, 'o, 's) filling" where
  "addLoop objectLoader currentKeyList [] st = st"
| "addLoop objectLoader currentKeyList (newKey # rest) st =
     (if inArray newKey currentKeyList = - 1 then
        (case objectLoader newKey (loaderState st) of
           (loadedObject, s') \<Rightarrow>
             addLoop objectLoader currentKeyList rest
               \<lparr>objects = (case loadedObject of
                             None \<Rightarrow> objects st
                           | Some obj \<Rightarrow> objects st @ [obj]),
                loaderState = s',
                loaderCalls = loaderCalls st @ [newKey]\<rparr>)
      else addLoop objectLoader currentKeyList rest st)"

text \<open>
  The inner loop of lines 535-540: \<^verbatim>\<open>splice(j, 1)\<close> at the first \<open>j\<close> whose element
  carries the key, then \<^verbatim>\<open>break\<close>. \<open>key obj\<close> is the read \<^verbatim>\<open>obj[key]()\<close> of the element's
  key observable.
\<close>

fun spliceFirst :: "('o \<Rightarrow> 'k) \<Rightarrow> 'k \<Rightarrow> 'o list \<Rightarrow> 'o list" where
  "spliceFirst key k [] = []"
| "spliceFirst key k (obj # objs) =
     (if key obj = k then objs else obj # spliceFirst key k objs)"

text \<open>The loop over \<^verbatim>\<open>currentKeyList\<close> (lines 531-542).\<close>

fun cleanLoop :: "('o \<Rightarrow> 'k) \<Rightarrow> 'k list \<Rightarrow> 'k list \<Rightarrow> 'o list \<Rightarrow> 'o list" where
  "cleanLoop key newKeyList [] objs = objs"
| "cleanLoop key newKeyList (currentKey # rest) objs =
     cleanLoop key newKeyList rest
       (if inArray currentKey newKeyList = - 1 then spliceFirst key currentKey objs else objs)"

text \<open>
  \<^verbatim>\<open>crossFiller\<close> (lines 514-544). The argument \<^verbatim>\<open>clean\<close> is \<open>None\<close> when it is omitted;
  the test is \<^verbatim>\<open>clean !== false\<close>.
\<close>

definition crossFiller ::
  "'k list \<Rightarrow> 'o list \<Rightarrow> ('k \<Rightarrow> 's \<Rightarrow> 'o option \<times> 's) \<Rightarrow> ('o \<Rightarrow> 'k) \<Rightarrow> bool option \<Rightarrow> 's
   \<Rightarrow> ('k, 'o, 's) filling" where
  "crossFiller newKeyList objectList objectLoader key clean s =
     (let currentKeyList = map key objectList;
          st = addLoop objectLoader currentKeyList newKeyList
                 \<lparr>objects = objectList, loaderState = s, loaderCalls = []\<rparr>
      in if clean \<noteq> Some False
         then st\<lparr>objects := cleanLoop key newKeyList currentKeyList (objects st)\<rparr>
         else st)"

text \<open>
  For the statements: the loader run over a list of keys in order, giving the objects it
  returns (the defined results) and its final state.
\<close>

fun loadAll :: "('k \<Rightarrow> 's \<Rightarrow> 'o option \<times> 's) \<Rightarrow> 'k list \<Rightarrow> 's \<Rightarrow> 'o list \<times> 's" where
  "loadAll objectLoader [] s = ([], s)"
| "loadAll objectLoader (k # ks) s =
     (case objectLoader k s of
        (r, s') \<Rightarrow>
          (case loadAll objectLoader ks s' of
             (objs, s'') \<Rightarrow> ((case r of None \<Rightarrow> objs | Some obj \<Rightarrow> obj # objs), s'')))"

subsection \<open>Selective merge\<close>

text \<open>
  The callback of \<^verbatim>\<open>$.each(keys, ...)\<close> in \<^verbatim>\<open>merge\<close> (lines 608-622), on the own fields of
  the three objects: \<open>obj key = None\<close> is \<^verbatim>\<open>!obj.hasOwnProperty(key)\<close>, an update
  \<open>targetObject(key \<mapsto> v)\<close> is the assignment and \<open>targetObject(key := None)\<close> is
  \<^verbatim>\<open>delete\<close>. The three objects are distinct.
\<close>

definition mergeKey ::
  "'a jsrecord \<Rightarrow> 'a jsrecord \<Rightarrow> 'a jsrecord \<Rightarrow> string \<Rightarrow> 'a jsrecord" where
  "mergeKey originalObject newObject targetObject key =
     (case (originalObject key, targetObject key) of
        (Some originalValue, Some targetValue) \<Rightarrow>
          if strict_eq originalValue targetValue then
            (case newObject key of
               Some newValue \<Rightarrow> targetObject(key \<mapsto> newValue)
             | None \<Rightarrow> targetObject(key := None))
          else targetObject
      | (None, None) \<Rightarrow>
          (case newObject key of
             Some newValue \<Rightarrow> targetObject(key \<mapsto> newValue)
           | None \<Rightarrow> targetObject)
      | _ \<Rightarrow> targetObject)"

text \<open>\<^verbatim>\<open>merge\<close> (lines 606-623): the callback applied to each key in turn.\<close>

fun merge ::
  "'a jsrecord \<Rightarrow> 'a jsrecord \<Rightarrow> 'a jsrecord \<Rightarrow> string list \<Rightarrow> 'a jsrecord" where
  "merge originalObject newObject targetObject [] = targetObject"
| "merge originalObject newObject targetObject (key # keys) =
     merge originalObject newObject (mergeKey originalObject newObject targetObject key) keys"

text \<open>For the statements: the field \<open>f\<close> of the target after one visit of \<open>f\<close>.\<close>

definition merged ::
  "'a jsrecord \<Rightarrow> 'a jsrecord \<Rightarrow> 'a jsrecord \<Rightarrow> string \<Rightarrow> 'a jsval option" where
  "merged original new target f =
     (case (original f, target f) of
        (Some ov, Some tv) \<Rightarrow> if strict_eq ov tv then new f else target f
      | (None, None) \<Rightarrow> new f
      | _ \<Rightarrow> target f)"

section \<open>Auxiliary facts\<close>

subsection \<open>Values\<close>

lemma strict_eq_sym: "strict_eq x y = strict_eq y x"
  by (cases x; cases y) auto

lemma strict_eq_iff: "strict_eq x y \<longleftrightarrow> x = y \<and> x \<noteq> NaN"
  by (cases x; cases y) auto

lemma strict_eq_refl: "strict_eq x x \<longleftrightarrow> x \<noteq> NaN"
  by (cases x) auto

lemma js_le_not_gt: "js_le x y \<Longrightarrow> \<not> js_gt x y"
  by (cases x; cases y) (auto simp: js_gt_def)

lemma js_le_not_lt: "js_le x y \<Longrightarrow> \<not> js_lt y x"
  by (cases x; cases y) auto

lemma js_le_antisym_gt:
  fixes x :: "'a::linorder jsval"
  shows "js_le y x \<Longrightarrow> \<not> js_gt x y \<Longrightarrow> strict_eq x y"
  by (cases x; cases y) (auto simp: js_gt_def)

lemma js_le_antisym_lt:
  fixes x :: "'a::linorder jsval"
  shows "js_le x y \<Longrightarrow> \<not> js_lt x y \<Longrightarrow> strict_eq x y"
  by (cases x; cases y) auto

lemma js_le_defined: "js_le x y \<Longrightarrow> x \<noteq> Undefined \<and> y \<noteq> Undefined"
  by (cases x; cases y) auto

lemma js_lt_irrefl: "\<not> js_lt (x::'a::order jsval) x"
  by (cases x) auto

subsection \<open>Ordered search\<close>

lemma length_itemValues [simp]: "length (itemValues this) = alength this"
  by (cases this) auto

lemma getItemUnwrap_readable:
  assumes "readable this"
  shows "getItemUnwrap this i =
     Inr (if i > int (alength this) - 1 \<or> i < 0 then Undefined else itemValues this ! nat i)"
proof (cases this)
  case (Plain xs)
  then show ?thesis by simp
next
  case (Keyed xs p)
  show ?thesis
  proof (cases "i > int (length xs) - 1 \<or> i < 0")
    case True
    then show ?thesis using Keyed by simp
  next
    case False
    then have lt: "nat i < length xs" by linarith
    with Keyed assms have "xs ! nat i \<noteq> None" by (simp add: list_all_length)
    then show ?thesis using Keyed False lt by (auto split: option.splits)
  qed
qed

lemma readable_slice: "readable this \<Longrightarrow> readable (slice this b e)"
  by (cases this) (auto simp: list_all_length)

lemma itemValues_slice: "itemValues (slice this b e) = take (e - b) (drop b (itemValues this))"
  by (cases this) (auto simp: take_map drop_map)

lemma getItemUnwrap_outside:
  "i < 0 \<or> int (alength this) - 1 < i \<Longrightarrow> getItemUnwrap this i = Inr Undefined"
  by (cases this) auto

lemma sortedSeq_nth:
  "sortedSeq this \<Longrightarrow> i < j \<Longrightarrow> j < alength this \<Longrightarrow>
   js_le (itemValues this ! i) (itemValues this ! j)"
  by (simp add: sortedSeq_def sorted_wrt_iff_nth_less)

lemma sortedSeq_slice: "sortedSeq this \<Longrightarrow> sortedSeq (slice this b e)"
  by (simp add: sortedSeq_def readable_slice itemValues_slice sorted_wrt_take sorted_wrt_drop)

text \<open>
  \<^verbatim>\<open>brSearch\<close> answers \<open>-1\<close> or an index that holds the value: it returns an index only
  after the test \<^verbatim>\<open>value === middleItem\<close>.
\<close>

lemma brSearch_sound:
  "readable this \<Longrightarrow>
   \<exists>r. brSearch this val = Inr r \<and>
       (r = - 1 \<or> (0 \<le> r \<and> r < int (alength this) \<and> strict_eq (itemValues this ! nat r) val))"
proof (induction this val rule: brSearch.induct)
  case (1 this val)
  let ?n = "alength this"
  let ?m = "?n div 2"
  let ?vs = "itemValues this"
  show ?case
  proof (cases "?n = 0")
    case True
    then show ?thesis by (subst brSearch.simps) simp
  next
    case nz: False
    have mlt: "?m < ?n" using nz by simp
    then have "\<not> (int ?m > int ?n - 1 \<or> int ?m < 0)" by linarith
    then have mid: "getItemUnwrap this (int ?m) = Inr (?vs ! ?m)"
      using getItemUnwrap_readable[OF "1.prems", of "int ?m"] by simp
    show ?thesis
    proof (cases "?n = 1 \<and> \<not> strict_eq (?vs ! ?m) val")
      case True
      then have n1: "?n = 1" and ns: "\<not> strict_eq (?vs ! 0) val" by auto
      from n1 mid have mid0: "getItemUnwrap this 0 = Inr (?vs ! 0)" by simp
      have "brSearch this val = Inr (- 1)"
        by (subst brSearch.simps) (simp add: n1 mid0 ns)
      then show ?thesis by simp
    next
      case notone: False
      show ?thesis
      proof (cases "strict_eq val (?vs ! ?m)")
        case True
        have "brSearch this val = Inr (int ?m)"
          by (subst brSearch.simps)
             (simp only: nz mid notone True Let_def sum.case if_True if_False simp_thms)
        moreover have "strict_eq (?vs ! ?m) val" using True by (simp add: strict_eq_sym)
        ultimately show ?thesis using mlt by simp
      next
        case ne: False
        show ?thesis
        proof (cases "js_gt val (?vs ! ?m)")
          case True
          let ?s = "slice this (?m + 1) ?n"
          from "1.IH"(1)[OF nz refl mid notone ne True readable_slice[OF "1.prems"]]
          obtain r where r: "brSearch ?s val = Inr r"
            "r = - 1 \<or> (0 \<le> r \<and> r < int (alength ?s) \<and> strict_eq (itemValues ?s ! nat r) val)"
            by blast
          have eq: "brSearch this val = (if r = - 1 then Inr (- 1) else Inr (int ?m + 1 + r))"
            by (subst brSearch.simps)
               (simp only: nz mid notone ne True r(1) Let_def sum.case if_True if_False simp_thms)
          show ?thesis
          proof (cases "r = - 1")
            case True
            then show ?thesis using eq by simp
          next
            case False
            with r(2) have r0: "0 \<le> r" and rl: "r < int (alength ?s)"
              and rv: "strict_eq (itemValues ?s ! nat r) val" by auto
            have len: "alength ?s = ?n - (?m + 1)" by (simp add: alength_slice)
            have "itemValues ?s ! nat r = ?vs ! (?m + 1 + nat r)"
              using r0 rl len by (simp add: itemValues_slice)
            moreover have "nat (int ?m + 1 + r) = ?m + 1 + nat r" using r0 by simp
            ultimately have "strict_eq (?vs ! nat (int ?m + 1 + r)) val" using rv by simp
            moreover have "int ?m + 1 + r < int ?n" using rl len r0 by linarith
            ultimately show ?thesis using eq False r0 by simp
          qed
        next
          case False
          let ?s = "slice this 0 ?m"
          from "1.IH"(2)[OF nz refl mid notone ne False readable_slice[OF "1.prems"]]
          obtain r where r: "brSearch ?s val = Inr r"
            "r = - 1 \<or> (0 \<le> r \<and> r < int (alength ?s) \<and> strict_eq (itemValues ?s ! nat r) val)"
            by blast
          have eq: "brSearch this val = Inr r"
            by (subst brSearch.simps)
               (simp only: nz mid notone ne False r(1) Let_def sum.case if_True if_False simp_thms)
          show ?thesis
          proof (cases "r = - 1")
            case True
            then show ?thesis using eq by simp
          next
            case False
            with r(2) have r0: "0 \<le> r" and rl: "r < int (alength ?s)"
              and rv: "strict_eq (itemValues ?s ! nat r) val" by auto
            have len: "alength ?s = ?m" by (simp add: alength_slice)
            have "itemValues ?s ! nat r = ?vs ! nat r"
              using r0 rl len by (simp add: itemValues_slice)
            then show ?thesis using eq rv r0 rl len by auto
          qed
        qed
      qed
    qed
  qed
qed

text \<open>On a sorted array the halving never leaves the side that holds the value.\<close>

lemma brSearch_complete:
  fixes this :: "'a::linorder array"
  shows "sortedSeq this \<Longrightarrow> k < alength this \<Longrightarrow> strict_eq (itemValues this ! k) val \<Longrightarrow>
         brSearch this val \<noteq> Inr (- 1)"
proof (induction this val arbitrary: k rule: brSearch.induct)
  case (1 this val)
  let ?n = "alength this"
  let ?m = "?n div 2"
  let ?vs = "itemValues this"
  have rd: "readable this" using "1.prems"(1) by (simp add: sortedSeq_def)
  have nz: "?n \<noteq> 0" using "1.prems"(2) by simp
  have mlt: "?m < ?n" using nz by simp
  then have "\<not> (int ?m > int ?n - 1 \<or> int ?m < 0)" by linarith
  then have mid: "getItemUnwrap this (int ?m) = Inr (?vs ! ?m)"
    using getItemUnwrap_readable[OF rd, of "int ?m"] by simp
  have kv: "?vs ! k = val" and vn: "val \<noteq> NaN"
    using "1.prems"(3) by (auto simp: strict_eq_iff)
  have notone: "\<not> (?n = 1 \<and> \<not> strict_eq (?vs ! ?m) val)"
  proof
    assume a: "?n = 1 \<and> \<not> strict_eq (?vs ! ?m) val"
    then have "k = 0" "?m = 0" using "1.prems"(2) by auto
    with a "1.prems"(3) show False by simp
  qed
  show ?case
  proof (cases "strict_eq val (?vs ! ?m)")
    case True
    have "brSearch this val = Inr (int ?m)"
      by (subst brSearch.simps)
         (simp only: nz mid notone True Let_def sum.case if_True if_False simp_thms)
    then show ?thesis by simp
  next
    case ne: False
    then have km: "k \<noteq> ?m" using kv vn by (auto simp: strict_eq_iff)
    show ?thesis
    proof (cases "js_gt val (?vs ! ?m)")
      case True
      let ?s = "slice this (?m + 1) ?n"
      have "\<not> k < ?m"
      proof
        assume "k < ?m"
        from sortedSeq_nth[OF "1.prems"(1) this mlt] have "js_le val (?vs ! ?m)" using kv by simp
        with True show False by (simp add: js_le_not_gt)
      qed
      with km have kgt: "?m < k" by simp
      have len: "alength ?s = ?n - (?m + 1)" by (simp add: alength_slice)
      have k': "k - (?m + 1) < alength ?s" using kgt "1.prems"(2) len by simp
      have "itemValues ?s ! (k - (?m + 1)) = ?vs ! k"
        using kgt "1.prems"(2) by (simp add: itemValues_slice)
      then have "strict_eq (itemValues ?s ! (k - (?m + 1))) val" using "1.prems"(3) by simp
      from "1.IH"(1)[OF nz refl mid notone ne True sortedSeq_slice[OF "1.prems"(1)] k' this]
      have nf: "brSearch ?s val \<noteq> Inr (- 1)" .
      from brSearch_sound[OF readable_slice[OF rd], of "?m + 1" ?n val] nf
      obtain r where r: "brSearch ?s val = Inr r" "0 \<le> r" "r \<noteq> - 1" by auto
      have "brSearch this val = (if r = - 1 then Inr (- 1) else Inr (int ?m + 1 + r))"
        by (subst brSearch.simps)
           (simp only: nz mid notone ne True r(1) Let_def sum.case if_True if_False simp_thms)
      then show ?thesis using r by simp
    next
      case False
      let ?s = "slice this 0 ?m"
      have "\<not> ?m < k"
      proof
        assume a: "?m < k"
        from sortedSeq_nth[OF "1.prems"(1) a "1.prems"(2)] have "js_le (?vs ! ?m) val"
          using kv by simp
        from js_le_antisym_gt[OF this False] ne show False by simp
      qed
      with km have klt: "k < ?m" by simp
      have len: "alength ?s = ?m" by (simp add: alength_slice)
      have k': "k < alength ?s" using klt len by simp
      have "itemValues ?s ! k = ?vs ! k" using klt by (simp add: itemValues_slice)
      then have "strict_eq (itemValues ?s ! k) val" using "1.prems"(3) by simp
      from "1.IH"(2)[OF nz refl mid notone ne False sortedSeq_slice[OF "1.prems"(1)] k' this]
      have nf: "brSearch ?s val \<noteq> Inr (- 1)" .
      have "brSearch this val = brSearch ?s val"
        by (subst brSearch.simps)
           (simp only: nz mid notone ne False Let_def sum.case if_True if_False simp_thms)
      then show ?thesis using nf by simp
    qed
  qed
qed

text \<open>The two bounded searches: one step of each on a readable array, then the same two facts.\<close>

lemma brSearchFirst_default:
  "brSearchFirst this val None None =
   brSearchFirst this val (Some 0) (Some (int (alength this) - 1))"
  apply (subst brSearchFirst.simps[of this val None None])
  apply (subst brSearchFirst.simps[of this val "Some 0" "Some (int (alength this) - 1)"])
  apply simp
  done

lemma brSearchFirst_empty:
  "e < s \<Longrightarrow> brSearchFirst this val (Some s) (Some e) = Inr (- 1)"
  by (subst brSearchFirst.simps) simp

lemma brSearchFirst_step:
  assumes "readable this" "0 \<le> s" "e < int (alength this)" "s \<le> e"
  shows "brSearchFirst this val (Some s) (Some e) =
    (let m = s + (e - s) div 2;
         middleItem = itemValues this ! nat m;
         previousItem = (if m = 0 then Undefined else itemValues this ! nat (m - 1))
     in if (previousItem = Undefined \<or> js_gt val previousItem) \<and> strict_eq middleItem val
        then Inr m
        else if js_gt val middleItem
        then brSearchFirst this val (Some (m + 1)) (Some e)
        else brSearchFirst this val (Some s) (Some (m - 1)))"
proof -
  define m where "m = s + (e - s) div 2"
  have mr: "s \<le> m" "m \<le> e" using assms(4) by (auto simp: m_def)
  then have "\<not> (m > int (alength this) - 1 \<or> m < 0)" using assms by linarith
  then have g1: "getItemUnwrap this m = Inr (itemValues this ! nat m)"
    using getItemUnwrap_readable[OF assms(1), of m] by simp
  have g2: "getItemUnwrap this (m - 1) =
      Inr (if m = 0 then Undefined else itemValues this ! nat (m - 1))"
  proof (cases "m = 0")
    case True
    then show ?thesis using getItemUnwrap_readable[OF assms(1), of "m - 1"] by simp
  next
    case False
    then have "\<not> (m - 1 > int (alength this) - 1 \<or> m - 1 < 0)" using mr assms by linarith
    then show ?thesis using False getItemUnwrap_readable[OF assms(1), of "m - 1"] by simp
  qed
  show ?thesis
    apply (subst brSearchFirst.simps)
    using assms(4) g1 g2 apply (simp add: Let_def m_def[symmetric])
    done
qed

lemma brSearchFirst_sound:
  assumes "readable this"
  shows "0 \<le> s \<Longrightarrow> e < int (alength this) \<Longrightarrow>
    \<exists>r. brSearchFirst this val (Some s) (Some e) = Inr r \<and>
        (r = - 1 \<or> (s \<le> r \<and> r \<le> e \<and> strict_eq (itemValues this ! nat r) val))"
proof (induction "nat (e - s + 1)" arbitrary: s e rule: less_induct)
  case less
  show ?case
  proof (cases "e < s")
    case True
    then show ?thesis by (simp add: brSearchFirst_empty)
  next
    case False
    then have se: "s \<le> e" by simp
    define m where "m = s + (e - s) div 2"
    have mr: "s \<le> m" "m \<le> e" using se by (auto simp: m_def)
    note step = brSearchFirst_step[OF assms less.prems(1) less.prems(2) se, of val,
        unfolded Let_def, folded m_def]
    let ?prev = "if m = 0 then Undefined else itemValues this ! nat (m - 1)"
    let ?mid = "itemValues this ! nat m"
    show ?thesis
    proof (cases "(?prev = Undefined \<or> js_gt val ?prev) \<and> strict_eq ?mid val")
      case True
      then have "brSearchFirst this val (Some s) (Some e) = Inr m" using step by simp
      then show ?thesis using True mr by simp
    next
      case nf: False
      show ?thesis
      proof (cases "js_gt val ?mid")
        case True
        have "nat (e - (m + 1) + 1) < nat (e - s + 1)" using mr se by linarith
        moreover have "0 \<le> m + 1" using mr less.prems by linarith
        ultimately obtain r where "brSearchFirst this val (Some (m + 1)) (Some e) = Inr r"
          "r = - 1 \<or> (m + 1 \<le> r \<and> r \<le> e \<and> strict_eq (itemValues this ! nat r) val)"
          using less.hyps[of e "m + 1"] less.prems(2) by blast
        moreover have "brSearchFirst this val (Some s) (Some e) =
            brSearchFirst this val (Some (m + 1)) (Some e)"
          using step nf True by simp
        ultimately show ?thesis using mr by auto
      next
        case False
        have "nat (m - 1 - s + 1) < nat (e - s + 1)" using mr se by linarith
        moreover have "m - 1 < int (alength this)" using mr less.prems by linarith
        ultimately obtain r where "brSearchFirst this val (Some s) (Some (m - 1)) = Inr r"
          "r = - 1 \<or> (s \<le> r \<and> r \<le> m - 1 \<and> strict_eq (itemValues this ! nat r) val)"
          using less.hyps[of "m - 1" s] less.prems(1) by blast
        moreover have "brSearchFirst this val (Some s) (Some e) =
            brSearchFirst this val (Some s) (Some (m - 1))"
          using step nf False by simp
        ultimately show ?thesis using mr by auto
      qed
    qed
  qed
qed

lemma brSearchFirst_finds_first:
  fixes this :: "'a::linorder array"
  assumes srt: "sortedSeq this"
    and kv: "strict_eq (itemValues this ! k) val"
    and first: "\<forall>j<k. \<not> strict_eq (itemValues this ! j) val"
  shows "0 \<le> s \<Longrightarrow> e < int (alength this) \<Longrightarrow> s \<le> int k \<Longrightarrow> int k \<le> e \<Longrightarrow>
    brSearchFirst this val (Some s) (Some e) = Inr (int k)"
proof (induction "nat (e - s + 1)" arbitrary: s e rule: less_induct)
  case less
  have rd: "readable this" using srt by (simp add: sortedSeq_def)
  have se: "s \<le> e" using less.prems by simp
  have kn: "k < alength this" using less.prems by linarith
  have kval: "itemValues this ! k = val" and vn: "val \<noteq> NaN"
    using kv by (auto simp: strict_eq_iff)
  define m where "m = s + (e - s) div 2"
  have mr: "s \<le> m" "m \<le> e" using se by (auto simp: m_def)
  have m0: "0 \<le> m" and mn: "nat m < alength this" using mr less.prems by linarith+
  note step = brSearchFirst_step[OF rd less.prems(1) less.prems(2) se, of val,
      unfolded Let_def, folded m_def]
  let ?prev = "if m = 0 then Undefined else itemValues this ! nat (m - 1)"
  let ?mid = "itemValues this ! nat m"
  show ?case
  proof (cases "(?prev = Undefined \<or> js_gt val ?prev) \<and> strict_eq ?mid val")
    case True
    then have midv: "strict_eq ?mid val" by simp
    have "\<not> int k < m"
    proof
      assume lt: "int k < m"
      then have mpos: "m \<noteq> 0" by linarith
      have "js_le val (itemValues this ! nat (m - 1))"
      proof (cases "k = nat (m - 1)")
        case True
        from lt have "k < nat m" by linarith
        from sortedSeq_nth[OF srt this mn] have "js_le val ?mid" using kval by simp
        moreover from midv have "?mid = val" by (simp add: strict_eq_iff)
        ultimately show ?thesis using True kval by simp
      next
        case False
        then have "k < nat (m - 1)" using lt by linarith
        moreover have "nat (m - 1) < alength this" using mn by linarith
        ultimately show ?thesis using sortedSeq_nth[OF srt] kval by metis
      qed
      then have "\<not> js_gt val (itemValues this ! nat (m - 1))"
        and "itemValues this ! nat (m - 1) \<noteq> Undefined"
        by (auto simp: js_le_not_gt dest: js_le_defined)
      with True mpos show False by simp
    qed
    moreover have "\<not> m < int k"
    proof
      assume "m < int k"
      then have "nat m < k" using m0 by linarith
      with first midv show False by blast
    qed
    ultimately have "m = int k" by linarith
    then show ?thesis using step True by simp
  next
    case nf: False
    show ?thesis
    proof (cases "js_gt val ?mid")
      case True
      have "\<not> int k \<le> m"
      proof
        assume le: "int k \<le> m"
        have "js_le val ?mid \<or> ?mid = val"
        proof (cases "int k = m")
          case True
          then show ?thesis using kval by auto
        next
          case False
          then have "k < nat m" using le by linarith
          from sortedSeq_nth[OF srt this mn] show ?thesis using kval by simp
        qed
        then show False
        proof
          assume "js_le val ?mid"
          with True show False by (simp add: js_le_not_gt)
        next
          assume "?mid = val"
          with True show False by (cases val) (auto simp: js_gt_def)
        qed
      qed
      then have km: "m + 1 \<le> int k" by linarith
      have "nat (e - (m + 1) + 1) < nat (e - s + 1)" using mr se by linarith
      moreover have "0 \<le> m + 1" using m0 by linarith
      ultimately have "brSearchFirst this val (Some (m + 1)) (Some e) = Inr (int k)"
        using less.hyps[of e "m + 1"] less.prems km by blast
      then show ?thesis using step nf True by simp
    next
      case False
      have "\<not> m \<le> int k"
      proof
        assume le: "m \<le> int k"
        have midv: "strict_eq ?mid val"
        proof (cases "int k = m")
          case True
          then have "nat m = k" by linarith
          then show ?thesis using kv by simp
        next
          case ne: False
          then have "nat m < k" using le m0 by linarith
          from sortedSeq_nth[OF srt this kn] have "js_le ?mid val" using kval by simp
          from js_le_antisym_gt[OF this False] show ?thesis by (simp add: strict_eq_sym)
        qed
        then have mk: "nat m = k"
          using first le m0 by (metis linorder_neqE_nat nat_int nat_mono not_less)
        from nf midv have pv: "?prev \<noteq> Undefined" "\<not> js_gt val ?prev" by auto
        then have mpos: "m \<noteq> 0" by auto
        then have lt: "nat (m - 1) < nat m" using m0 by linarith
        from sortedSeq_nth[OF srt lt mn] have "js_le (itemValues this ! nat (m - 1)) val"
          using midv by (simp add: strict_eq_iff)
        from js_le_antisym_gt[OF this] pv mpos
        have "strict_eq (itemValues this ! nat (m - 1)) val" by (simp add: strict_eq_sym)
        with first lt mk show False by blast
      qed
      then have km: "int k \<le> m - 1" by linarith
      have "nat (m - 1 - s + 1) < nat (e - s + 1)" using mr se by linarith
      moreover have "m - 1 < int (alength this)" using mr less.prems by linarith
      ultimately have "brSearchFirst this val (Some s) (Some (m - 1)) = Inr (int k)"
        using less.hyps[of "m - 1" s] less.prems km by blast
      then show ?thesis using step nf False by simp
    qed
  qed
qed

lemma brSearchLast_default:
  "brSearchLast this val None None =
   brSearchLast this val (Some 0) (Some (int (alength this) - 1))"
  apply (subst brSearchLast.simps[of this val None None])
  apply (subst brSearchLast.simps[of this val "Some 0" "Some (int (alength this) - 1)"])
  apply simp
  done

lemma brSearchLast_empty:
  "e < s \<Longrightarrow> brSearchLast this val (Some s) (Some e) = Inr (- 1)"
  by (subst brSearchLast.simps) simp

lemma brSearchLast_step:
  assumes "readable this" "0 \<le> s" "e < int (alength this)" "s \<le> e"
  shows "brSearchLast this val (Some s) (Some e) =
    (let m = s + (e - s) div 2;
         middleItem = itemValues this ! nat m;
         nextItem = (if m + 1 = int (alength this) then Undefined
                     else itemValues this ! nat (m + 1))
     in if (nextItem = Undefined \<or> js_lt val nextItem) \<and> strict_eq middleItem val
        then Inr m
        else if js_lt val middleItem
        then brSearchLast this val (Some s) (Some (m - 1))
        else brSearchLast this val (Some (m + 1)) (Some e))"
proof -
  define m where "m = s + (e - s) div 2"
  have mr: "s \<le> m" "m \<le> e" using assms(4) by (auto simp: m_def)
  then have "\<not> (m > int (alength this) - 1 \<or> m < 0)" using assms by linarith
  then have g1: "getItemUnwrap this m = Inr (itemValues this ! nat m)"
    using getItemUnwrap_readable[OF assms(1), of m] by simp
  have g2: "getItemUnwrap this (m + 1) =
      Inr (if m + 1 = int (alength this) then Undefined else itemValues this ! nat (m + 1))"
  proof (cases "m + 1 = int (alength this)")
    case True
    then show ?thesis using getItemUnwrap_readable[OF assms(1), of "m + 1"] by simp
  next
    case False
    then have "\<not> (m + 1 > int (alength this) - 1 \<or> m + 1 < 0)" using mr assms by linarith
    then show ?thesis using False getItemUnwrap_readable[OF assms(1), of "m + 1"] by simp
  qed
  show ?thesis
    apply (subst brSearchLast.simps)
    using assms(4) g1 g2 apply (simp add: Let_def m_def[symmetric])
    done
qed

lemma brSearchLast_sound:
  assumes "readable this"
  shows "0 \<le> s \<Longrightarrow> e < int (alength this) \<Longrightarrow>
    \<exists>r. brSearchLast this val (Some s) (Some e) = Inr r \<and>
        (r = - 1 \<or> (s \<le> r \<and> r \<le> e \<and> strict_eq (itemValues this ! nat r) val))"
proof (induction "nat (e - s + 1)" arbitrary: s e rule: less_induct)
  case less
  show ?case
  proof (cases "e < s")
    case True
    then show ?thesis by (simp add: brSearchLast_empty)
  next
    case False
    then have se: "s \<le> e" by simp
    define m where "m = s + (e - s) div 2"
    have mr: "s \<le> m" "m \<le> e" using se by (auto simp: m_def)
    note step = brSearchLast_step[OF assms less.prems(1) less.prems(2) se, of val,
        unfolded Let_def, folded m_def]
    let ?next = "if m + 1 = int (alength this) then Undefined
                 else itemValues this ! nat (m + 1)"
    let ?mid = "itemValues this ! nat m"
    show ?thesis
    proof (cases "(?next = Undefined \<or> js_lt val ?next) \<and> strict_eq ?mid val")
      case True
      then have "brSearchLast this val (Some s) (Some e) = Inr m" using step by simp
      then show ?thesis using True mr by simp
    next
      case nf: False
      show ?thesis
      proof (cases "js_lt val ?mid")
        case False
        have "nat (e - (m + 1) + 1) < nat (e - s + 1)" using mr se by linarith
        moreover have "0 \<le> m + 1" using mr less.prems by linarith
        ultimately obtain r where "brSearchLast this val (Some (m + 1)) (Some e) = Inr r"
          "r = - 1 \<or> (m + 1 \<le> r \<and> r \<le> e \<and> strict_eq (itemValues this ! nat r) val)"
          using less.hyps[of e "m + 1"] less.prems(2) by blast
        moreover have "brSearchLast this val (Some s) (Some e) =
            brSearchLast this val (Some (m + 1)) (Some e)"
          using step nf False by simp
        ultimately show ?thesis using mr by auto
      next
        case True
        have "nat (m - 1 - s + 1) < nat (e - s + 1)" using mr se by linarith
        moreover have "m - 1 < int (alength this)" using mr less.prems by linarith
        ultimately obtain r where "brSearchLast this val (Some s) (Some (m - 1)) = Inr r"
          "r = - 1 \<or> (s \<le> r \<and> r \<le> m - 1 \<and> strict_eq (itemValues this ! nat r) val)"
          using less.hyps[of "m - 1" s] less.prems(1) by blast
        moreover have "brSearchLast this val (Some s) (Some e) =
            brSearchLast this val (Some s) (Some (m - 1))"
          using step nf True by simp
        ultimately show ?thesis using mr by auto
      qed
    qed
  qed
qed

lemma brSearchLast_finds_last:
  fixes this :: "'a::linorder array"
  assumes srt: "sortedSeq this"
    and kn: "k < alength this"
    and kv: "strict_eq (itemValues this ! k) val"
    and last: "\<forall>j. k < j \<and> j < alength this \<longrightarrow> \<not> strict_eq (itemValues this ! j) val"
  shows "0 \<le> s \<Longrightarrow> e < int (alength this) \<Longrightarrow> s \<le> int k \<Longrightarrow> int k \<le> e \<Longrightarrow>
    brSearchLast this val (Some s) (Some e) = Inr (int k)"
proof (induction "nat (e - s + 1)" arbitrary: s e rule: less_induct)
  case less
  have rd: "readable this" using srt by (simp add: sortedSeq_def)
  have se: "s \<le> e" using less.prems by simp
  have kval: "itemValues this ! k = val" and vn: "val \<noteq> NaN"
    using kv by (auto simp: strict_eq_iff)
  define m where "m = s + (e - s) div 2"
  have mr: "s \<le> m" "m \<le> e" using se by (auto simp: m_def)
  have m0: "0 \<le> m" and mn: "nat m < alength this" using mr less.prems by linarith+
  note step = brSearchLast_step[OF rd less.prems(1) less.prems(2) se, of val,
      unfolded Let_def, folded m_def]
  let ?next = "if m + 1 = int (alength this) then Undefined
               else itemValues this ! nat (m + 1)"
  let ?mid = "itemValues this ! nat m"
  show ?case
  proof (cases "(?next = Undefined \<or> js_lt val ?next) \<and> strict_eq ?mid val")
    case True
    then have midv: "strict_eq ?mid val" by simp
    have "\<not> m < int k"
    proof
      assume lt: "m < int k"
      then have inr: "m + 1 \<noteq> int (alength this)" and nn: "nat (m + 1) < alength this"
        using kn by linarith+
      have "js_le (itemValues this ! nat (m + 1)) val"
      proof (cases "k = nat (m + 1)")
        case True
        have "nat m < k" using lt m0 by linarith
        from sortedSeq_nth[OF srt this kn] have "js_le ?mid val" using kval by simp
        moreover from midv have "?mid = val" by (simp add: strict_eq_iff)
        ultimately show ?thesis using True kval by simp
      next
        case False
        then have "nat (m + 1) < k" using lt m0 by linarith
        from sortedSeq_nth[OF srt this kn] show ?thesis using kval by simp
      qed
      then have "\<not> js_lt val (itemValues this ! nat (m + 1))"
        and "itemValues this ! nat (m + 1) \<noteq> Undefined"
        by (auto simp: js_le_not_lt dest: js_le_defined)
      with True inr show False by simp
    qed
    moreover have "\<not> int k < m"
    proof
      assume "int k < m"
      then have "k < nat m" by linarith
      with last mn midv show False by blast
    qed
    ultimately have "m = int k" by linarith
    then show ?thesis using step True by simp
  next
    case nf: False
    show ?thesis
    proof (cases "js_lt val ?mid")
      case True
      have "\<not> m \<le> int k"
      proof
        assume le: "m \<le> int k"
        have "js_le ?mid val \<or> ?mid = val"
        proof (cases "int k = m")
          case True
          then show ?thesis using kval by auto
        next
          case False
          then have "nat m < k" using le m0 by linarith
          from sortedSeq_nth[OF srt this kn] show ?thesis using kval by simp
        qed
        then show False
        proof
          assume "js_le ?mid val"
          with True show False by (simp add: js_le_not_lt)
        next
          assume "?mid = val"
          with True show False by (simp add: js_lt_irrefl)
        qed
      qed
      then have km: "int k \<le> m - 1" by linarith
      have "nat (m - 1 - s + 1) < nat (e - s + 1)" using mr se by linarith
      moreover have "m - 1 < int (alength this)" using mr less.prems by linarith
      ultimately have "brSearchLast this val (Some s) (Some (m - 1)) = Inr (int k)"
        using less.hyps[of "m - 1" s] less.prems km by blast
      then show ?thesis using step nf True by simp
    next
      case False
      have "\<not> int k \<le> m"
      proof
        assume le: "int k \<le> m"
        have midv: "strict_eq ?mid val"
        proof (cases "int k = m")
          case True
          then have "nat m = k" by linarith
          then show ?thesis using kv by simp
        next
          case ne: False
          then have "k < nat m" using le by linarith
          from sortedSeq_nth[OF srt this mn] have "js_le val ?mid" using kval by simp
          from js_le_antisym_lt[OF this False] show ?thesis by (simp add: strict_eq_sym)
        qed
        have mk: "nat m = k"
        proof (rule ccontr)
          assume "nat m \<noteq> k"
          then have "k < nat m" using le by linarith
          with last mn midv show False by blast
        qed
        from nf midv have pv: "?next \<noteq> Undefined" "\<not> js_lt val ?next" by auto
        then have inr: "m + 1 \<noteq> int (alength this)" by auto
        then have nn: "nat (m + 1) < alength this" using mn m0 by linarith
        have lt: "nat m < nat (m + 1)" using m0 by linarith
        from sortedSeq_nth[OF srt lt nn] have "js_le val (itemValues this ! nat (m + 1))"
          using midv by (simp add: strict_eq_iff)
        from js_le_antisym_lt[OF this] pv inr
        have "strict_eq (itemValues this ! nat (m + 1)) val" by (simp add: strict_eq_sym)
        with last lt mk nn show False by blast
      qed
      then have km: "m + 1 \<le> int k" by linarith
      have "nat (e - (m + 1) + 1) < nat (e - s + 1)" using mr se by linarith
      moreover have "0 \<le> m + 1" using m0 by linarith
      ultimately have "brSearchLast this val (Some (m + 1)) (Some e) = Inr (int k)"
        using less.hyps[of e "m + 1"] less.prems km by blast
      then show ?thesis using step nf False by simp
    qed
  qed
qed

subsection \<open>Structural equality\<close>

lemma arrayEquals_length: "length A \<noteq> length B \<Longrightarrow> \<not> arrayEquals A B"
  by (subst arrayEquals.simps) simp

lemma equals_length: "length A \<noteq> length B \<Longrightarrow> \<not> equals A B"
  by (simp add: equals_def)

lemma arrayEquals_loop_self:
  assumes nested: "\<And>a. Array a \<in> set A \<Longrightarrow> arrayEquals a a \<longleftrightarrow> list_all nanFree a"
  shows "arrayEquals_loop A A i \<longleftrightarrow> (\<forall>j. i \<le> j \<and> j < length A \<longrightarrow> nanFree (A ! j))"
proof (induction "length A - i" arbitrary: i)
  case 0
  then have "\<not> i < length A" by simp
  then show ?case by (subst arrayEquals_loop.simps) auto
next
  case (Suc n)
  then have i: "i < length A" by simp
  have IH: "arrayEquals_loop A A (i + 1) \<longleftrightarrow>
      (\<forall>j. i + 1 \<le> j \<and> j < length A \<longrightarrow> nanFree (A ! j))"
    using Suc by simp
  have here: "(\<forall>j. i \<le> j \<and> j < length A \<longrightarrow> nanFree (A ! j)) \<longleftrightarrow>
      nanFree (A ! i) \<and> (\<forall>j. i + 1 \<le> j \<and> j < length A \<longrightarrow> nanFree (A ! j))"
    (is "?L \<longleftrightarrow> ?R")
  proof
    assume ?L
    then show ?R using i by auto
  next
    assume r: ?R
    show ?L
    proof (intro allI impI)
      fix j
      assume j: "i \<le> j \<and> j < length A"
      then consider "j = i" | "i + 1 \<le> j" by linarith
      then show "nanFree (A ! j)" using r j by cases auto
    qed
  qed
  show ?case
  proof (cases "A ! i")
    case (Atom x)
    then show ?thesis using i IH here
      by (subst arrayEquals_loop.simps) (simp add: at_def strict_eq_refl)
  next
    case (Array a)
    then have "Array a \<in> set A" using i by (metis nth_mem)
    from nested[OF this] Array show ?thesis using i IH here
      by (subst arrayEquals_loop.simps) (simp add: at_def)
  qed
qed

lemma arrayEquals_self: "arrayEquals A A \<longleftrightarrow> list_all nanFree A"
proof (induction "size_list size A" arbitrary: A rule: less_induct)
  case less
  have nested: "arrayEquals a a \<longleftrightarrow> list_all nanFree a" if "Array a \<in> set A" for a
  proof -
    from that have "size (Array a) \<le> size_list size A" by (rule size_list_estimation') simp
    then have "size_list size a < size_list size A" by simp
    then show ?thesis by (rule less)
  qed
  have "arrayEquals A A = arrayEquals_loop A A 0" by (subst arrayEquals.simps) simp
  also have "\<dots> \<longleftrightarrow> (\<forall>j. j < length A \<longrightarrow> nanFree (A ! j))"
    using arrayEquals_loop_self[of A 0, OF nested] by simp
  finally show ?case by (simp add: list_all_length)
qed

lemma equals_loop_self:
  "equals_loop A A i \<longleftrightarrow> (\<forall>j. i \<le> j \<and> j < length A \<longrightarrow> nanFree (A ! j))"
proof (induction "length A - i" arbitrary: i)
  case 0
  then have "\<not> i < length A" by simp
  then show ?case by (subst equals_loop.simps) auto
next
  case (Suc n)
  then have i: "i < length A" by simp
  have IH: "equals_loop A A (i + 1) \<longleftrightarrow>
      (\<forall>j. i + 1 \<le> j \<and> j < length A \<longrightarrow> nanFree (A ! j))"
    using Suc by simp
  have here: "(\<forall>j. i \<le> j \<and> j < length A \<longrightarrow> nanFree (A ! j)) \<longleftrightarrow>
      nanFree (A ! i) \<and> (\<forall>j. i + 1 \<le> j \<and> j < length A \<longrightarrow> nanFree (A ! j))"
    (is "?L \<longleftrightarrow> ?R")
  proof
    assume ?L
    then show ?R using i by auto
  next
    assume r: ?R
    show ?L
    proof (intro allI impI)
      fix j
      assume j: "i \<le> j \<and> j < length A"
      then consider "j = i" | "i + 1 \<le> j" by linarith
      then show "nanFree (A ! j)" using r j by cases auto
    qed
  qed
  show ?case
  proof (cases "A ! i")
    case (Atom x)
    then show ?thesis using i IH here
      by (subst equals_loop.simps) (simp add: at_def strict_eq_refl)
  next
    case (Array a)
    then show ?thesis using i IH here
      by (subst equals_loop.simps) (simp add: at_def arrayEquals_self)
  qed
qed

lemma equals_self: "equals A A \<longleftrightarrow> list_all nanFree A"
  using equals_loop_self[of A 0] by (simp add: equals_def list_all_length)

lemma hasOwn_iff: "hasOwn fs p \<longleftrightarrow> p \<in> fst ` set fs"
  by (simp add: hasOwn_def map_of_eq_None_iff)

lemma strictEquals_objectEquals: "strictEquals a b \<Longrightarrow> objectEquals a b"
  by (subst objectEquals.simps) simp

lemma objectEquals_field:
  "(if \<not> hasOwn fs2 p then False
    else if strictEquals x y then True
    else if \<not> typeofObject x then False
    else objectEquals x y) \<longleftrightarrow>
   hasOwn fs2 p \<and> (strictEquals x y \<or> (typeofObject x \<and> objectEquals x y))"
  by auto

subsection \<open>Cross-fill and merge\<close>

lemma inArray_ge: "- 1 \<le> inArray elem arr"
  by (induction arr) (auto simp: Let_def)

lemma inArray_iff: "inArray elem arr = - 1 \<longleftrightarrow> elem \<notin> set arr"
proof (induction arr)
  case Nil
  show ?case by simp
next
  case (Cons x xs)
  show ?case using Cons inArray_ge[of elem xs] by (auto simp: Let_def)
qed

lemma addLoop_eq:
  "addLoop objectLoader cur ks st =
     (let missing = filter (\<lambda>k. k \<notin> set cur) ks;
          r = loadAll objectLoader missing (loaderState st)
      in \<lparr>objects = objects st @ fst r, loaderState = snd r,
          loaderCalls = loaderCalls st @ missing\<rparr>)"
proof (induction ks arbitrary: st)
  case Nil
  show ?case by simp
next
  case (Cons k ks)
  show ?case
    by (cases "k \<in> set cur")
       (auto simp: inArray_iff Cons Let_def split: prod.splits option.splits)
qed

lemma spliceFirst_absent:
  "\<forall>obj\<in>set pre. key obj \<noteq> k \<Longrightarrow>
   spliceFirst key k (pre @ rest) = pre @ spliceFirst key k rest"
  by (induction pre) auto

lemma cleanLoop_eq:
  "\<forall>obj\<in>set pre. key obj \<in> set newKeyList \<Longrightarrow>
   cleanLoop key newKeyList (map key xs) (pre @ xs @ ys) =
     pre @ filter (\<lambda>obj. key obj \<in> set newKeyList) xs @ ys"
proof (induction xs arbitrary: pre)
  case Nil
  show ?case by simp
next
  case (Cons x xs)
  show ?case
  proof (cases "key x \<in> set newKeyList")
    case True
    then have "\<forall>obj\<in>set (pre @ [x]). key obj \<in> set newKeyList" using Cons.prems by simp
    from Cons.IH[OF this] True show ?thesis by (simp add: inArray_iff)
  next
    case False
    then have "\<forall>obj\<in>set pre. key obj \<noteq> key x" using Cons.prems by auto
    then have "spliceFirst key (key x) (pre @ x # xs @ ys) = pre @ xs @ ys"
      by (simp add: spliceFirst_absent)
    with Cons.IH[OF Cons.prems] False show ?thesis by (simp add: inArray_iff)
  qed
qed

lemma crossFiller_eq:
  "crossFiller newKeyList objectList objectLoader key clean s =
     (let missing = filter (\<lambda>k. k \<notin> set (map key objectList)) newKeyList;
          loaded = loadAll objectLoader missing s;
          kept = (if clean = Some False then objectList
                  else filter (\<lambda>obj. key obj \<in> set newKeyList) objectList)
      in \<lparr>objects = kept @ fst loaded, loaderState = snd loaded, loaderCalls = missing\<rparr>)"
  using cleanLoop_eq[of "[]" key newKeyList objectList]
  by (simp add: crossFiller_def addLoop_eq Let_def)

lemma count_list_filter: "P k \<Longrightarrow> count_list (filter P xs) k = count_list xs k"
  by (induction xs) auto

lemma loadAll_count:
  assumes "\<forall>k' s'. case fst (objectLoader k' s') of None \<Rightarrow> k' \<noteq> k | Some obj \<Rightarrow> key obj = k'"
  shows "length (filter (\<lambda>obj. key obj = k) (fst (loadAll objectLoader ks s))) = count_list ks k"
proof (induction ks arbitrary: s)
  case Nil
  show ?case by simp
next
  case (Cons k' ks)
  obtain r s' where r: "objectLoader k' s = (r, s')" by (cases "objectLoader k' s")
  from assms have "case r of None \<Rightarrow> k' \<noteq> k | Some obj \<Rightarrow> key obj = k'"
    using r by (metis fst_conv)
  then show ?case using r Cons[of s'] by (auto split: prod.splits option.splits)
qed

lemma mergeKey_other: "f \<noteq> key \<Longrightarrow> mergeKey original new target key f = target f"
  by (simp add: mergeKey_def split: option.splits)

lemma mergeKey_same: "mergeKey original new target f f = merged original new target f"
  by (auto simp: mergeKey_def merged_def split: option.splits)

lemma merged_idem:
  "merged original new (mergeKey original new target f) f = merged original new target f"
  by (auto simp: mergeKey_def merged_def split: option.splits)

lemma merged_other:
  "f \<noteq> key \<Longrightarrow> merged original new (mergeKey original new target key) f = merged original new target f"
  by (auto simp: merged_def mergeKey_other split: option.splits)

lemma merge_field:
  "merge original new target keys f =
     (if f \<in> set keys then merged original new target f else target f)"
proof (induction keys arbitrary: target)
  case Nil
  show ?case by simp
next
  case (Cons key keys)
  note IH = Cons[of "mergeKey original new target key"]
  show ?case
  proof (cases "f = key")
    case True
    show ?thesis using IH unfolding True by (simp add: merged_idem mergeKey_same)
  next
    case False
    then show ?thesis using IH by (simp add: merged_other mergeKey_other)
  qed
qed

section \<open>The claims\<close>

text \<open>
  \<^bold>\<open>C1\<close> (\<^verbatim>\<open>brSearch\<close>). For every array that is sorted in non-decreasing order, read
  through the field \<^verbatim>\<open>prop\<close> when one is given, and for every value: if the value is
  strictly equal to one of the compared items, the search returns an index in bounds whose
  item is strictly equal to the value; if it is strictly equal to none of them, the search
  returns \<open>-1\<close>. Sorted means a linear order on the items and every property read
  succeeding (\<open>sortedSeq\<close>).
\<close>

theorem brSearch_sorted:
  fixes this :: "'a::linorder array"
  assumes "sortedSeq this"
  shows "((\<exists>k<alength this. strict_eq (itemValues this ! k) val) \<longrightarrow>
            (\<exists>i<alength this. brSearch this val = Inr (int i)
                \<and> strict_eq (itemValues this ! i) val))
       \<and> ((\<forall>k<alength this. \<not> strict_eq (itemValues this ! k) val) \<longrightarrow>
            brSearch this val = Inr (- 1))"
proof -
  have rd: "readable this" using assms by (simp add: sortedSeq_def)
  from brSearch_sound[OF rd, of val] obtain r where
    r: "brSearch this val = Inr r"
       "r = - 1 \<or> (0 \<le> r \<and> r < int (alength this) \<and> strict_eq (itemValues this ! nat r) val)"
    by blast
  have present: "\<exists>i<alength this. brSearch this val = Inr (int i)
                \<and> strict_eq (itemValues this ! i) val"
    if "\<exists>k<alength this. strict_eq (itemValues this ! k) val"
  proof -
    from that obtain k where "k < alength this" "strict_eq (itemValues this ! k) val" by blast
    from brSearch_complete[OF assms this] r have
      "0 \<le> r" "r < int (alength this)" "strict_eq (itemValues this ! nat r) val" by auto
    then show ?thesis using r(1) by (intro exI[of _ "nat r"]) simp
  qed
  have absent: "brSearch this val = Inr (- 1)"
    if "\<forall>k<alength this. \<not> strict_eq (itemValues this ! k) val"
  proof (rule ccontr)
    assume "brSearch this val \<noteq> Inr (- 1)"
    with r have "0 \<le> r" "r < int (alength this)" "strict_eq (itemValues this ! nat r) val"
      by auto
    moreover from this have "nat r < alength this" by simp
    ultimately show False using that by blast
  qed
  from present absent show ?thesis by blast
qed

text \<open>
  C1 at the sorted array \<open>[1, 3, 3, 7]\<close>: the value \<open>3\<close> is found at an index that holds
  it, the value \<open>5\<close> is not found. The index found for \<open>3\<close> is the middle one, 2,
  neither the first nor the last.
\<close>

theorem brSearch_sorted_witness:
  "sortedSeq (Plain [Val (1::int), Val 3, Val 3, Val 7])
   \<and> (\<exists>i<alength (Plain [Val (1::int), Val 3, Val 3, Val 7]).
         brSearch (Plain [Val (1::int), Val 3, Val 3, Val 7]) (Val 3) = Inr (int i)
         \<and> strict_eq (itemValues (Plain [Val (1::int), Val 3, Val 3, Val 7]) ! i) (Val 3))
   \<and> brSearch (Plain [Val (1::int), Val 3, Val 3, Val 7]) (Val 5) = Inr (- 1)
   \<and> brSearch (Plain [Val (1::int), Val 3, Val 3, Val 7]) (Val 3) = Inr 2
   \<and> brSearch (Plain [Val (1::int), Val 3, Val 3, Val 7]) (Val 1) = Inr 0"
proof -
  let ?S = "Plain [Val (1::int), Val 3, Val 3, Val 7]"
  have v: "brSearch ?S (Val 3) = Inr 2" "brSearch ?S (Val 1) = Inr 0"
    by (simp_all add: brSearch.simps js_gt_def)
  have s: "sortedSeq ?S" by (simp add: sortedSeq_def)
  have p: "\<exists>k<alength ?S. strict_eq (itemValues ?S ! k) (Val 3)"
    by (intro exI[of _ 1]) simp
  have a: "\<forall>k<alength ?S. \<not> strict_eq (itemValues ?S ! k) (Val 5)"
    by (auto simp: less_Suc_eq)
  from brSearch_sorted[OF s, of "Val 3"] p
  have "\<exists>i<alength ?S. brSearch ?S (Val 3) = Inr (int i) \<and> strict_eq (itemValues ?S ! i) (Val 3)"
    by blast
  moreover from brSearch_sorted[OF s, of "Val 5"] a have "brSearch ?S (Val 5) = Inr (- 1)"
    by blast
  ultimately show ?thesis using s v by blast
qed

text \<open>
  \<^bold>\<open>C2\<close> (\<^verbatim>\<open>brSearchFirst\<close>, \<^verbatim>\<open>brSearchLast\<close>). On every sorted array, called without bounds:
  if \<open>k\<close> is the lowest index whose item is strictly equal to the value,
  \<^verbatim>\<open>brSearchFirst\<close> returns \<open>k\<close>; if \<open>k\<close> is the highest such index, \<^verbatim>\<open>brSearchLast\<close> returns
  \<open>k\<close>; and if no item is strictly equal to the value, both return \<open>-1\<close>.
\<close>

theorem brSearchFirst_Last_sorted:
  fixes this :: "'a::linorder array"
  assumes "sortedSeq this"
  shows "(\<forall>k<alength this.
            strict_eq (itemValues this ! k) val \<and>
            (\<forall>j<k. \<not> strict_eq (itemValues this ! j) val) \<longrightarrow>
            brSearchFirst this val None None = Inr (int k))
       \<and> (\<forall>k<alength this.
            strict_eq (itemValues this ! k) val \<and>
            (\<forall>j. k < j \<and> j < alength this \<longrightarrow> \<not> strict_eq (itemValues this ! j) val) \<longrightarrow>
            brSearchLast this val None None = Inr (int k))
       \<and> ((\<forall>k<alength this. \<not> strict_eq (itemValues this ! k) val) \<longrightarrow>
            brSearchFirst this val None None = Inr (- 1)
            \<and> brSearchLast this val None None = Inr (- 1))"
proof (intro conjI allI impI)
  fix k
  assume "k < alength this"
    and "strict_eq (itemValues this ! k) val \<and>
         (\<forall>j<k. \<not> strict_eq (itemValues this ! j) val)"
  then show "brSearchFirst this val None None = Inr (int k)"
    using brSearchFirst_finds_first[OF assms, of k val 0 "int (alength this) - 1"]
    by (simp add: brSearchFirst_default)
next
  fix k
  assume "k < alength this"
    and "strict_eq (itemValues this ! k) val \<and>
         (\<forall>j. k < j \<and> j < alength this \<longrightarrow> \<not> strict_eq (itemValues this ! j) val)"
  then show "brSearchLast this val None None = Inr (int k)"
    using brSearchLast_finds_last[OF assms, of k val 0 "int (alength this) - 1"]
    by (simp add: brSearchLast_default)
next
  assume absent: "\<forall>k<alength this. \<not> strict_eq (itemValues this ! k) val"
  have rd: "readable this" using assms by (simp add: sortedSeq_def)
  from brSearchFirst_sound[OF rd, of 0 "int (alength this) - 1" val]
  obtain r where "brSearchFirst this val (Some 0) (Some (int (alength this) - 1)) = Inr r"
    "r = - 1 \<or> (0 \<le> r \<and> r \<le> int (alength this) - 1
        \<and> strict_eq (itemValues this ! nat r) val)"
    by auto
  moreover have "\<not> (0 \<le> r \<and> r \<le> int (alength this) - 1
        \<and> strict_eq (itemValues this ! nat r) val)"
  proof
    assume a: "0 \<le> r \<and> r \<le> int (alength this) - 1
        \<and> strict_eq (itemValues this ! nat r) val"
    then have "nat r < alength this" by linarith
    with absent a show False by blast
  qed
  ultimately show "brSearchFirst this val None None = Inr (- 1)"
    by (auto simp: brSearchFirst_default)
next
  assume absent: "\<forall>k<alength this. \<not> strict_eq (itemValues this ! k) val"
  have rd: "readable this" using assms by (simp add: sortedSeq_def)
  from brSearchLast_sound[OF rd, of 0 "int (alength this) - 1" val]
  obtain r where "brSearchLast this val (Some 0) (Some (int (alength this) - 1)) = Inr r"
    "r = - 1 \<or> (0 \<le> r \<and> r \<le> int (alength this) - 1
        \<and> strict_eq (itemValues this ! nat r) val)"
    by auto
  moreover have "\<not> (0 \<le> r \<and> r \<le> int (alength this) - 1
        \<and> strict_eq (itemValues this ! nat r) val)"
  proof
    assume a: "0 \<le> r \<and> r \<le> int (alength this) - 1
        \<and> strict_eq (itemValues this ! nat r) val"
    then have "nat r < alength this" by linarith
    with absent a show False by blast
  qed
  ultimately show "brSearchLast this val None None = Inr (- 1)"
    by (auto simp: brSearchLast_default)
qed

text \<open>
  C2 at five records sorted by their field \<^verbatim>\<open>id\<close>, with the ids \<open>1, 3, 3, 3, 7\<close>: the
  first \<open>3\<close> is at index 1, the last at index 3, and \<open>5\<close> is not found.
\<close>

theorem brSearchFirst_Last_sorted_witness:
  "sortedSeq (Keyed [Some [''id'' \<mapsto> Val (1::int)], Some [''id'' \<mapsto> Val 3],
                     Some [''id'' \<mapsto> Val 3], Some [''id'' \<mapsto> Val 3],
                     Some [''id'' \<mapsto> Val 7]] ''id'')
   \<and> brSearchFirst (Keyed [Some [''id'' \<mapsto> Val (1::int)], Some [''id'' \<mapsto> Val 3],
                     Some [''id'' \<mapsto> Val 3], Some [''id'' \<mapsto> Val 3],
                     Some [''id'' \<mapsto> Val 7]] ''id'') (Val 3) None None = Inr 1
   \<and> brSearchLast (Keyed [Some [''id'' \<mapsto> Val (1::int)], Some [''id'' \<mapsto> Val 3],
                     Some [''id'' \<mapsto> Val 3], Some [''id'' \<mapsto> Val 3],
                     Some [''id'' \<mapsto> Val 7]] ''id'') (Val 3) None None = Inr 3
   \<and> brSearchFirst (Keyed [Some [''id'' \<mapsto> Val (1::int)], Some [''id'' \<mapsto> Val 3],
                     Some [''id'' \<mapsto> Val 3], Some [''id'' \<mapsto> Val 3],
                     Some [''id'' \<mapsto> Val 7]] ''id'') (Val 5) None None = Inr (- 1)
   \<and> brSearchLast (Keyed [Some [''id'' \<mapsto> Val (1::int)], Some [''id'' \<mapsto> Val 3],
                     Some [''id'' \<mapsto> Val 3], Some [''id'' \<mapsto> Val 3],
                     Some [''id'' \<mapsto> Val 7]] ''id'') (Val 5) None None = Inr (- 1)"
proof -
  let ?S = "Keyed [Some [''id'' \<mapsto> Val (1::int)], Some [''id'' \<mapsto> Val 3],
                     Some [''id'' \<mapsto> Val 3], Some [''id'' \<mapsto> Val 3],
                     Some [''id'' \<mapsto> Val 7]] ''id''"
  have iv: "itemValues ?S = [Val 1, Val 3, Val 3, Val 3, Val 7]"
    by (simp add: getProperty_def)
  have s: "sortedSeq ?S" unfolding sortedSeq_def iv by simp
  note T = brSearchFirst_Last_sorted[OF s]
  have f: "1 < alength ?S \<and> strict_eq (itemValues ?S ! 1) (Val 3)
      \<and> (\<forall>j<1. \<not> strict_eq (itemValues ?S ! j) (Val 3))"
    unfolding iv by simp
  have l: "3 < alength ?S \<and> strict_eq (itemValues ?S ! 3) (Val 3)
      \<and> (\<forall>j. 3 < j \<and> j < alength ?S \<longrightarrow> \<not> strict_eq (itemValues ?S ! j) (Val 3))"
    unfolding iv by (auto simp: less_Suc_eq)
  have a: "\<forall>k<alength ?S. \<not> strict_eq (itemValues ?S ! k) (Val 5)"
    unfolding iv by (auto simp: less_Suc_eq)
  from T[of "Val 3"] f have "brSearchFirst ?S (Val 3) None None = Inr (int 1)" by blast
  moreover from T[of "Val 3"] l have "brSearchLast ?S (Val 3) None None = Inr (int 3)" by blast
  moreover from T[of "Val 5"] a have "brSearchFirst ?S (Val 5) None None = Inr (- 1)"
    "brSearchLast ?S (Val 5) None None = Inr (- 1)" by blast+
  ultimately show ?thesis using s by simp
qed

text \<open>
  \<^bold>\<open>C3\<close> (\<^verbatim>\<open>crossFiller\<close>). The call ends in this state: the loader has been called, in
  order, with exactly the keys of \<^verbatim>\<open>newKeyList\<close> that are not among the keys read off the
  array at the start; the array holds the elements kept followed by the objects the loader
  returned (a call that returns \<open>undefined\<close> adds nothing); with \<^verbatim>\<open>clean\<close> true or omitted
  the elements kept are those whose key is in \<^verbatim>\<open>newKeyList\<close>, each removal having taken the
  first element that carries a stale key; with \<^verbatim>\<open>clean\<close> false every element is kept.
\<close>

theorem crossFiller_result:
  "crossFiller newKeyList objectList objectLoader key clean s =
     (let missing = filter (\<lambda>k. k \<notin> set (map key objectList)) newKeyList;
          loaded = loadAll objectLoader missing s;
          kept = (if clean = Some False then objectList
                  else filter (\<lambda>obj. key obj \<in> set newKeyList) objectList)
      in \<lparr>objects = kept @ fst loaded, loaderState = snd loaded, loaderCalls = missing\<rparr>)"
proof -
  let ?missing = "filter (\<lambda>k. k \<notin> set (map key objectList)) newKeyList"
  let ?loaded = "loadAll objectLoader ?missing s"
  have added: "addLoop objectLoader (map key objectList) newKeyList
        \<lparr>objects = objectList, loaderState = s, loaderCalls = []\<rparr> =
      \<lparr>objects = objectList @ fst ?loaded, loaderState = snd ?loaded, loaderCalls = ?missing\<rparr>"
    by (simp add: addLoop_eq Let_def)
  have cleaned: "cleanLoop key newKeyList (map key objectList) (objectList @ fst ?loaded) =
      filter (\<lambda>obj. key obj \<in> set newKeyList) objectList @ fst ?loaded"
    using cleanLoop_eq[of "[]" key newKeyList objectList "fst ?loaded"] by simp
  show ?thesis
    using added cleaned by (simp add: crossFiller_def Let_def)
qed

text \<open>
  C3 at the scenario of the specification: the array holds the keys \<open>1, 2, 3\<close>, the new
  keys are \<open>2, 3, 4\<close> and the loader returns an object with the key it is given. Cleaning
  (asked for or by default) ends with the keys \<open>2, 3, 4\<close>, not cleaning with
  \<open>1, 2, 3, 4\<close>; the loader is called for \<open>4\<close> only; a loader that returns \<open>undefined\<close>
  adds nothing.
\<close>

theorem crossFiller_result_witness:
  "map fst (objects (crossFiller [2, 3, 4] [(1::int, ''a''), (2, ''b''), (3, ''c'')]
               (\<lambda>k n. (Some (k, ''loaded''), Suc n)) fst None (0::nat))) = [2, 3, 4]
   \<and> map fst (objects (crossFiller [2, 3, 4] [(1::int, ''a''), (2, ''b''), (3, ''c'')]
               (\<lambda>k n. (Some (k, ''loaded''), Suc n)) fst (Some True) (0::nat))) = [2, 3, 4]
   \<and> map fst (objects (crossFiller [2, 3, 4] [(1::int, ''a''), (2, ''b''), (3, ''c'')]
               (\<lambda>k n. (Some (k, ''loaded''), Suc n)) fst (Some False) (0::nat))) = [1, 2, 3, 4]
   \<and> loaderCalls (crossFiller [2, 3, 4] [(1::int, ''a''), (2, ''b''), (3, ''c'')]
               (\<lambda>k n. (Some (k, ''loaded''), Suc n)) fst None (0::nat)) = [4]
   \<and> objects (crossFiller [2, 3, 4] [(1::int, ''a''), (2, ''b''), (3, ''c'')]
               (\<lambda>k n. (None, Suc n)) fst None (0::nat)) = [(2, ''b''), (3, ''c'')]"
  by (simp add: crossFiller_result)

text \<open>
  \<^bold>\<open>C4\<close> (\<^verbatim>\<open>merge\<close>). For every field name \<open>f\<close> among the keys: if the original and the
  target both define \<open>f\<close> with strictly equal values, the target ends with the new
  object's \<open>f\<close> (its value when the new object defines \<open>f\<close>, no field \<open>f\<close> when it does
  not); if neither the original nor the target defines \<open>f\<close>, the target ends with the new
  object's \<open>f\<close> likewise; in every other case the target's \<open>f\<close> is as it was.
\<close>

theorem merge_three_way:
  assumes "f \<in> set keys"
  shows "(\<forall>ov tv. original f = Some ov \<and> target f = Some tv \<and> strict_eq ov tv \<longrightarrow>
            merge original new target keys f = new f)
       \<and> (original f = None \<and> target f = None \<longrightarrow>
            merge original new target keys f = new f)
       \<and> (\<not> (\<exists>ov tv. original f = Some ov \<and> target f = Some tv \<and> strict_eq ov tv)
            \<and> \<not> (original f = None \<and> target f = None) \<longrightarrow>
            merge original new target keys f = target f)"
  using assms by (auto simp: merge_field merged_def split: option.splits)

text \<open>
  C4 at the scenario of the specification: with the original \<open>{x: 1}\<close> and the new
  object \<open>{x: 2}\<close>, the untouched target \<open>{x: 1}\<close> becomes \<open>{x: 2}\<close> and the edited
  target \<open>{x: 5}\<close> stays \<open>{x: 5}\<close>; a field the new object lacks is deleted from an
  untouched target; a field only the new object has is added.
\<close>

theorem merge_three_way_witness:
  "merge [''x'' \<mapsto> Val (1::int)] [''x'' \<mapsto> Val 2] [''x'' \<mapsto> Val 1] [''x''] ''x'' = Some (Val 2)
   \<and> merge [''x'' \<mapsto> Val (1::int)] [''x'' \<mapsto> Val 2] [''x'' \<mapsto> Val 5] [''x''] ''x'' = Some (Val 5)
   \<and> merge [''x'' \<mapsto> Val (1::int)] Map.empty [''x'' \<mapsto> Val 1] [''x''] ''x'' = None
   \<and> merge Map.empty [''x'' \<mapsto> Val (2::int)] Map.empty [''x''] ''x'' = Some (Val 2)"
proof -
  have x: "''x'' \<in> set [''x'']" by simp
  from merge_three_way[OF x, of "[''x'' \<mapsto> Val (1::int)]" "[''x'' \<mapsto> Val 1]" "[''x'' \<mapsto> Val 2]"]
  have 1: "merge [''x'' \<mapsto> Val (1::int)] [''x'' \<mapsto> Val 2] [''x'' \<mapsto> Val 1] [''x''] ''x''
      = Some (Val 2)"
    by simp
  from merge_three_way[OF x, of "[''x'' \<mapsto> Val (1::int)]" "[''x'' \<mapsto> Val 5]" "[''x'' \<mapsto> Val 2]"]
  have 2: "merge [''x'' \<mapsto> Val (1::int)] [''x'' \<mapsto> Val 2] [''x'' \<mapsto> Val 5] [''x''] ''x''
      = Some (Val 5)"
    by simp
  from merge_three_way[OF x, of "[''x'' \<mapsto> Val (1::int)]" "[''x'' \<mapsto> Val 1]" Map.empty]
  have 3: "merge [''x'' \<mapsto> Val (1::int)] Map.empty [''x'' \<mapsto> Val 1] [''x''] ''x'' = None"
    by simp
  from merge_three_way[OF x, of Map.empty Map.empty "[''x'' \<mapsto> Val (2::int)]"]
  have 4: "merge Map.empty [''x'' \<mapsto> Val (2::int)] Map.empty [''x''] ''x'' = Some (Val 2)"
    by simp
  from 1 2 3 4 show ?thesis by blast
qed

text \<open>
  \<^bold>\<open>C5\<close> (\<^verbatim>\<open>objectEquals\<close>). The claim asks that the result be true only if both arguments
  are non-primitive. The function returns \<^verbatim>\<open>true\<close> at its first test, \<^verbatim>\<open>object1 === object2\<close>,
  for two equal primitives, for \<open>undefined\<close> twice and for \<open>null\<close> twice, as the comment at
  that test announces.
\<close>

theorem objectEquals_primitives_counterexample:
  "objectEquals (Primitive (Val (1::int))) (Primitive (Val 1))
   \<and> objectEquals (Primitive (Undefined :: int jsval)) (Primitive Undefined)
   \<and> objectEquals (Null :: int jsany) Null"
  by (simp add: objectEquals.simps)

text \<open>
  C5 as amended: \<^verbatim>\<open>objectEquals(a, b)\<close> is true exactly when \<open>a\<close> and \<open>b\<close> are strictly equal
  (the same primitive value other than \<open>NaN\<close>, \<open>null\<close> twice, \<open>undefined\<close> twice, or the same
  object), or both are \<^verbatim>\<open>instanceof Object\<close> with the same constructor, every field of one
  is a field of the other, and the two values of each field are strictly equal or, the
  first being of type \<^verbatim>\<open>"object"\<close>, in turn equal in this sense. A field that only one of two
  different objects has, be it set to \<open>undefined\<close>, makes the result false.
\<close>

theorem objectEquals_iff:
  "objectEquals a b \<longleftrightarrow>
     strictEquals a b \<or>
     (\<exists>c fs1 fs2. asObject a = Some (c, fs1) \<and> asObject b = Some (c, fs2)
        \<and> (\<forall>p. hasOwn fs1 p \<longleftrightarrow> hasOwn fs2 p)
        \<and> (\<forall>p. hasOwn fs1 p \<longrightarrow>
              strictEquals (getOwn fs1 p) (getOwn fs2 p)
              \<or> (typeofObject (getOwn fs1 p) \<and> objectEquals (getOwn fs1 p) (getOwn fs2 p))))"
proof (cases "strictEquals a b")
  case True
  then show ?thesis by (simp add: strictEquals_objectEquals)
next
  case ns: False
  show ?thesis
  proof (cases "asObject a")
    case None
    then show ?thesis using ns by (subst objectEquals.simps) simp
  next
    case a: (Some cf1)
    obtain c1 fs1 where cf1: "cf1 = (c1, fs1)" by (cases cf1)
    show ?thesis
    proof (cases "asObject b")
      case None
      then show ?thesis using ns a by (subst objectEquals.simps) (simp add: cf1)
    next
      case b: (Some cf2)
      obtain c2 fs2 where cf2: "cf2 = (c2, fs2)" by (cases cf2)
      let ?ok = "\<lambda>p. strictEquals (getOwn fs1 p) (getOwn fs2 p)
          \<or> (typeofObject (getOwn fs1 p) \<and> objectEquals (getOwn fs1 p) (getOwn fs2 p))"
      have "objectEquals a b \<longleftrightarrow>
          c1 = c2
          \<and> list_all (\<lambda>p. hasOwn fs2 p \<and> ?ok p) (map fst fs1)
          \<and> list_all (\<lambda>p. \<not> (hasOwn fs2 p \<and> \<not> hasOwn fs1 p)) (map fst fs2)"
        using ns a b unfolding cf1 cf2
        by (subst objectEquals.simps) (simp only: objectEquals_field, simp)
      also have "\<dots> \<longleftrightarrow>
          c1 = c2 \<and> (\<forall>p\<in>fst ` set fs1. hasOwn fs2 p \<and> ?ok p)
          \<and> (\<forall>p\<in>fst ` set fs2. hasOwn fs1 p)"
        by (auto simp: list_all_iff hasOwn_iff)
      also have "\<dots> \<longleftrightarrow> c1 = c2 \<and> (\<forall>p. hasOwn fs1 p \<longleftrightarrow> hasOwn fs2 p)
          \<and> (\<forall>p. hasOwn fs1 p \<longrightarrow> ?ok p)"
        by (auto simp: hasOwn_iff)
      finally show ?thesis using ns a b cf1 cf2 by auto
    qed
  qed
qed

text \<open>
  C5 as amended, at the examples of the specification: \<open>{a: 1, b: 2}\<close> equals a second
  object \<open>{a: 1, b: 2}\<close>; \<open>{a: 1}\<close> does not equal \<open>{a: 1, b: 2}\<close>. Further,
  \<open>{a: 1, b: undefined}\<close> does not equal \<open>{a: 1}\<close>; \<open>{a: [1]}\<close> equals a second
  \<open>{a: [1]}\<close>; and two objects whose field \<open>f\<close> holds two different functions are not
  equal.
\<close>

theorem objectEquals_iff_witness:
  "objectEquals
     (Object 1 ''Object'' [(''a'', Primitive (Val (1::int))), (''b'', Primitive (Val 2))])
     (Object 2 ''Object'' [(''a'', Primitive (Val 1)), (''b'', Primitive (Val 2))])
   \<and> \<not> objectEquals
     (Object 1 ''Object'' [(''a'', Primitive (Val (1::int)))])
     (Object 2 ''Object'' [(''a'', Primitive (Val 1)), (''b'', Primitive (Val 2))])
   \<and> \<not> objectEquals
     (Object 1 ''Object'' [(''a'', Primitive (Val (1::int))), (''b'', Primitive Undefined)])
     (Object 2 ''Object'' [(''a'', Primitive (Val 1))])
   \<and> objectEquals
     (Object 1 ''Object'' [(''a'', Object 3 ''Array'' [(''0'', Primitive (Val (1::int)))])])
     (Object 2 ''Object'' [(''a'', Object 4 ''Array'' [(''0'', Primitive (Val 1))])])
   \<and> \<not> objectEquals
     (Object 1 ''Object'' [(''f'', Function 3 :: int jsany)])
     (Object 2 ''Object'' [(''f'', Function 4)])"
proof -
  have 1: "objectEquals
     (Object 1 ''Object'' [(''a'', Primitive (Val (1::int))), (''b'', Primitive (Val 2))])
     (Object 2 ''Object'' [(''a'', Primitive (Val 1)), (''b'', Primitive (Val 2))])"
    by (subst objectEquals_iff) (simp add: hasOwn_def getOwn_def)
  have 2: "\<not> objectEquals
     (Object 1 ''Object'' [(''a'', Primitive (Val (1::int)))])
     (Object 2 ''Object'' [(''a'', Primitive (Val 1)), (''b'', Primitive (Val 2))])"
    by (subst objectEquals_iff) (auto simp: hasOwn_def getOwn_def intro: exI[of _ "''b''"])
  have 3: "\<not> objectEquals
     (Object 1 ''Object'' [(''a'', Primitive (Val (1::int))), (''b'', Primitive Undefined)])
     (Object 2 ''Object'' [(''a'', Primitive (Val 1))])"
    by (subst objectEquals_iff) (auto simp: hasOwn_def getOwn_def intro: exI[of _ "''b''"])
  have inner: "objectEquals (Object 3 ''Array'' [(''0'', Primitive (Val (1::int)))])
      (Object 4 ''Array'' [(''0'', Primitive (Val 1))])"
    by (subst objectEquals_iff) (simp add: hasOwn_def getOwn_def)
  have 4: "objectEquals
     (Object 1 ''Object'' [(''a'', Object 3 ''Array'' [(''0'', Primitive (Val (1::int)))])])
     (Object 2 ''Object'' [(''a'', Object 4 ''Array'' [(''0'', Primitive (Val 1))])])"
    by (subst objectEquals_iff) (simp add: hasOwn_def getOwn_def inner)
  have 5: "\<not> objectEquals
     (Object 1 ''Object'' [(''f'', Function 3 :: int jsany)])
     (Object 2 ''Object'' [(''f'', Function 4)])"
    by (subst objectEquals_iff) (auto simp: hasOwn_def getOwn_def)
  from 1 2 3 4 5 show ?thesis by blast
qed

text \<open>
  \<^bold>\<open>C6\<close> (\<^verbatim>\<open>Array.prototype.equals\<close>, \<^verbatim>\<open>arrayEquals\<close>). The claim asks that every array
  equal itself. Elements that are not both arrays are compared with \<^verbatim>\<open>!==\<close>, and \<open>NaN\<close> is
  not strictly equal to itself: the array \<open>[NaN]\<close> does not equal itself.
\<close>

theorem sequenceEquals_NaN_counterexample:
  "\<not> arrayEquals [Atom (NaN :: int jsval)] [Atom NaN]
   \<and> \<not> equals [Atom (NaN :: int jsval)] [Atom NaN]"
  by (simp add: equals_def arrayEquals.simps arrayEquals_loop.simps equals_loop.simps at_def)

text \<open>
  C6 as amended: an array equals itself exactly when it holds no \<open>NaN\<close> at any depth of
  nesting, under both functions; and two arrays of different lengths are never equal.
\<close>

theorem sequenceEquals_reflexive_length:
  "(arrayEquals A A \<longleftrightarrow> list_all nanFree A)
   \<and> (equals A A \<longleftrightarrow> list_all nanFree A)
   \<and> (length A \<noteq> length B \<longrightarrow> \<not> arrayEquals A B \<and> \<not> equals A B)"
  by (simp add: arrayEquals_self equals_self arrayEquals_length equals_length)

text \<open>
  C6 as amended, at \<open>[1, [undefined, 2]]\<close>, which equals itself and does not equal
  \<open>[1]\<close>.
\<close>

theorem sequenceEquals_reflexive_length_witness:
  "arrayEquals [Atom (Val (1::int)), Array [Atom Undefined, Atom (Val 2)]]
               [Atom (Val (1::int)), Array [Atom Undefined, Atom (Val 2)]]
   \<and> equals [Atom (Val (1::int)), Array [Atom Undefined, Atom (Val 2)]]
             [Atom (Val (1::int)), Array [Atom Undefined, Atom (Val 2)]]
   \<and> \<not> arrayEquals [Atom (Val (1::int)), Array [Atom Undefined, Atom (Val 2)]]
                    [Atom (Val (1::int))]
   \<and> \<not> equals [Atom (Val (1::int)), Array [Atom Undefined, Atom (Val 2)]]
                [Atom (Val (1::int))]"
  using sequenceEquals_reflexive_length[of
      "[Atom (Val (1::int)), Array [Atom Undefined, Atom (Val 2)]]" "[Atom (Val (1::int))]"]
  by simp

text \<open>
  \<^bold>\<open>C7\<close> (\<^verbatim>\<open>brSearchFirst\<close>, \<^verbatim>\<open>brSearchLast\<close>). Called with two bounds such that
  \<open>end < start\<close>, on any array, with or without \<^verbatim>\<open>prop\<close> and for any value, both searches
  return \<open>-1\<close>: a result, not an error.
\<close>

theorem brSearch_malformed_bounds:
  "e < s \<Longrightarrow>
   brSearchFirst this val (Some s) (Some e) = Inr (- 1)
   \<and> brSearchLast this val (Some s) (Some e) = Inr (- 1)"
  by (simp add: brSearchFirst_empty brSearchLast_empty)

text \<open>
  C7 at the bounds \<open>start = 2\<close>, \<open>end = 1\<close> on an array that holds the value.
\<close>

theorem brSearch_malformed_bounds_witness:
  "brSearchFirst (Plain [Val (1::int), Val 2, Val 3]) (Val 2) (Some 2) (Some 1) = Inr (- 1)
   \<and> brSearchLast (Plain [Val (1::int), Val 2, Val 3]) (Val 2) (Some 2) (Some 1) = Inr (- 1)"
  using brSearch_malformed_bounds[of 1 2 "Plain [Val (1::int), Val 2, Val 3]" "Val 2"] by simp

text \<open>
  \<^bold>\<open>C8\<close> (\<^verbatim>\<open>crossFiller\<close>). After the call the array is a subsequence of what it held
  (the elements kept, themselves and in their order) followed by the objects the loader
  returned: elements are removed and appended at the end, none is moved or replaced.
\<close>

theorem crossFiller_frame:
  "\<exists>kept. subseq kept objectList
     \<and> objects (crossFiller newKeyList objectList objectLoader key clean s) =
         kept @ fst (loadAll objectLoader
                       (filter (\<lambda>k. k \<notin> set (map key objectList)) newKeyList) s)"
proof (cases "clean = Some False")
  case True
  then show ?thesis by (intro exI[of _ objectList]) (simp add: crossFiller_eq)
next
  case False
  then show ?thesis
    by (intro exI[of _ "filter (\<lambda>obj. key obj \<in> set newKeyList) objectList"])
       (simp add: crossFiller_eq)
qed

text \<open>
  C8 at the scenario of the specification: what is left of \<open>1, 2, 3\<close> comes first, in
  order, and the loaded object last.
\<close>

theorem crossFiller_frame_witness:
  "\<exists>kept. subseq kept [(1::int, ''a''), (2, ''b''), (3, ''c'')]
     \<and> objects (crossFiller [2, 3, 4] [(1::int, ''a''), (2, ''b''), (3, ''c'')]
                 (\<lambda>k n. (Some (k, ''loaded''), Suc n)) fst None (0::nat))
         = kept @ [(4, ''loaded'')]"
  using crossFiller_frame[of "[(1::int, ''a''), (2, ''b''), (3, ''c'')]" "[2, 3, 4]"
      "\<lambda>k n. (Some (k, ''loaded''), Suc n)" fst None "0::nat"]
  by simp

text \<open>
  \<^bold>\<open>C9\<close> (the three searches on any array). The claim asks that the searches return
  \<open>-1\<close> or an index for every array and every \<^verbatim>\<open>prop\<close>. With a \<^verbatim>\<open>prop\<close>,
  \<^verbatim>\<open>getItemUnwrap\<close> reads \<^verbatim>\<open>foundItem[prop]\<close> of the element inside the bounds; when that
  element is \<open>undefined\<close> or \<open>null\<close> the read raises a \<open>TypeError\<close>, and so do the three
  searches on the array \<open>[undefined]\<close>.
\<close>

theorem search_undefined_element_counterexample:
  "brSearch (Keyed [None] ''id'') (Val (1::int)) = Inl TypeError
   \<and> brSearchFirst (Keyed [None] ''id'') (Val (1::int)) None None = Inl TypeError
   \<and> brSearchLast (Keyed [None] ''id'') (Val (1::int)) None None = Inl TypeError"
  by (simp add: brSearch.simps brSearchFirst.simps brSearchLast.simps)

text \<open>
  C9 as amended: on every array, sorted or not, whose elements are all records when a
  \<^verbatim>\<open>prop\<close> is given, and for every value, each of the three searches (the two bounded ones
  called without bounds) returns \<open>-1\<close> or an index \<open>r\<close> with \<open>0 \<le> r < length\<close> whose item is
  strictly equal to the value; and on every array a read outside the bounds gives
  \<open>undefined\<close>. The three functions are total: each call returns.
\<close>

theorem search_result_in_bounds:
  assumes "readable this"
  shows "(\<exists>r. brSearch this val = Inr r \<and>
            (r = - 1 \<or> (0 \<le> r \<and> r < int (alength this)
                          \<and> strict_eq (itemValues this ! nat r) val)))
       \<and> (\<exists>r. brSearchFirst this val None None = Inr r \<and>
            (r = - 1 \<or> (0 \<le> r \<and> r < int (alength this)
                          \<and> strict_eq (itemValues this ! nat r) val)))
       \<and> (\<exists>r. brSearchLast this val None None = Inr r \<and>
            (r = - 1 \<or> (0 \<le> r \<and> r < int (alength this)
                          \<and> strict_eq (itemValues this ! nat r) val)))
       \<and> (\<forall>i. i < 0 \<or> int (alength this) - 1 < i \<longrightarrow> getItemUnwrap this i = Inr Undefined)"
proof (intro conjI)
  show "\<exists>r. brSearch this val = Inr r \<and>
            (r = - 1 \<or> (0 \<le> r \<and> r < int (alength this)
                          \<and> strict_eq (itemValues this ! nat r) val))"
    by (rule brSearch_sound[OF assms])
next
  from brSearchFirst_sound[OF assms, of 0 "int (alength this) - 1" val]
  show "\<exists>r. brSearchFirst this val None None = Inr r \<and>
            (r = - 1 \<or> (0 \<le> r \<and> r < int (alength this)
                          \<and> strict_eq (itemValues this ! nat r) val))"
    by (auto simp: brSearchFirst_default)
next
  from brSearchLast_sound[OF assms, of 0 "int (alength this) - 1" val]
  show "\<exists>r. brSearchLast this val None None = Inr r \<and>
            (r = - 1 \<or> (0 \<le> r \<and> r < int (alength this)
                          \<and> strict_eq (itemValues this ! nat r) val))"
    by (auto simp: brSearchLast_default)
next
  show "\<forall>i. i < 0 \<or> int (alength this) - 1 < i \<longrightarrow> getItemUnwrap this i = Inr Undefined"
    by (simp add: getItemUnwrap_outside)
qed

text \<open>
  C9 as amended, at two records with the ids \<open>7, 2\<close>, which are not sorted: searching
  for \<open>2\<close>, \<^verbatim>\<open>brSearch\<close> happens to find it at index 1 and the two bounded searches answer
  \<open>-1\<close>; a read at index 2 gives \<open>undefined\<close>.
\<close>

theorem search_result_in_bounds_witness:
  "readable (Keyed [Some [''id'' \<mapsto> Val (7::int)], Some [''id'' \<mapsto> Val 2]] ''id'')
   \<and> (\<exists>r. brSearch (Keyed [Some [''id'' \<mapsto> Val (7::int)], Some [''id'' \<mapsto> Val 2]] ''id'')
             (Val 2) = Inr r
          \<and> (r = - 1 \<or> (0 \<le> r \<and> r < 2)))
   \<and> (\<exists>r. brSearchFirst (Keyed [Some [''id'' \<mapsto> Val (7::int)], Some [''id'' \<mapsto> Val 2]] ''id'')
             (Val 2) None None = Inr r
          \<and> (r = - 1 \<or> (0 \<le> r \<and> r < 2)))
   \<and> (\<exists>r. brSearchLast (Keyed [Some [''id'' \<mapsto> Val (7::int)], Some [''id'' \<mapsto> Val 2]] ''id'')
             (Val 2) None None = Inr r
          \<and> (r = - 1 \<or> (0 \<le> r \<and> r < 2)))
   \<and> getItemUnwrap (Keyed [Some [''id'' \<mapsto> Val (7::int)], Some [''id'' \<mapsto> Val 2]] ''id'') 2
       = Inr Undefined
   \<and> brSearch (Keyed [Some [''id'' \<mapsto> Val (7::int)], Some [''id'' \<mapsto> Val 2]] ''id'')
        (Val 2) = Inr 1
   \<and> brSearchFirst (Keyed [Some [''id'' \<mapsto> Val (7::int)], Some [''id'' \<mapsto> Val 2]] ''id'')
        (Val 2) None None = Inr (- 1)
   \<and> brSearchLast (Keyed [Some [''id'' \<mapsto> Val (7::int)], Some [''id'' \<mapsto> Val 2]] ''id'')
        (Val 2) None None = Inr (- 1)"
proof -
  let ?S = "Keyed [Some [''id'' \<mapsto> Val (7::int)], Some [''id'' \<mapsto> Val 2]] ''id''"
  have r: "readable ?S" by simp
  have v: "brSearch ?S (Val 2) = Inr 1" "brSearchFirst ?S (Val 2) None None = Inr (- 1)"
    "brSearchLast ?S (Val 2) None None = Inr (- 1)"
    by (simp_all add: brSearch.simps brSearchFirst.simps brSearchLast.simps getProperty_def
        js_gt_def)
  from search_result_in_bounds[OF r, of "Val 2"]
  have "(\<exists>r. brSearch ?S (Val 2) = Inr r \<and> (r = - 1 \<or> (0 \<le> r \<and> r < 2)))
      \<and> (\<exists>r. brSearchFirst ?S (Val 2) None None = Inr r \<and> (r = - 1 \<or> (0 \<le> r \<and> r < 2)))
      \<and> (\<exists>r. brSearchLast ?S (Val 2) None None = Inr r \<and> (r = - 1 \<or> (0 \<le> r \<and> r < 2)))
      \<and> getItemUnwrap ?S 2 = Inr Undefined"
    by auto
  then show ?thesis using r v by blast
qed

text \<open>
  \<^bold>\<open>C10\<close> (\<^verbatim>\<open>crossFiller\<close>). The keys of the array are read once, before the loop over
  \<^verbatim>\<open>newKeyList\<close>. So for a key \<open>k\<close> that no element carries at the start, the loader is
  called for \<open>k\<close> as many times as \<open>k\<close> occurs in \<^verbatim>\<open>newKeyList\<close>; and when every object the
  loader returns carries the key it was asked for, and the loader returns an object
  whenever it is asked for \<open>k\<close>, the array ends with that many elements carrying \<open>k\<close>.
\<close>

theorem crossFiller_duplicate_keys:
  assumes "k \<notin> set (map key objectList)"
  shows "count_list (loaderCalls (crossFiller newKeyList objectList objectLoader key clean s)) k
           = count_list newKeyList k
       \<and> ((\<forall>k' s'. case fst (objectLoader k' s') of
                      None \<Rightarrow> k' \<noteq> k | Some obj \<Rightarrow> key obj = k') \<longrightarrow>
           length (filter (\<lambda>obj. key obj = k)
                     (objects (crossFiller newKeyList objectList objectLoader key clean s)))
             = count_list newKeyList k)"
proof -
  let ?missing = "filter (\<lambda>k. k \<notin> set (map key objectList)) newKeyList"
  have c: "count_list ?missing k = count_list newKeyList k"
    using assms by (simp add: count_list_filter)
  have none: "filter (\<lambda>obj. key obj = k) objectList = []"
    using assms by (auto simp: filter_empty_conv)
  have none': "filter (\<lambda>obj. key obj = k) (filter (\<lambda>obj. key obj \<in> set newKeyList) objectList) = []"
    using assms by (auto simp: filter_empty_conv)
  show ?thesis
    using c none none' by (auto simp: crossFiller_eq Let_def loadAll_count)
qed

text \<open>
  C10 at the new keys \<open>4, 2, 4\<close> on an array with the keys \<open>1, 2\<close>: the loader is called
  twice for \<open>4\<close> and two elements with the key \<open>4\<close> are appended.
\<close>

theorem crossFiller_duplicate_keys_witness:
  "count_list (loaderCalls (crossFiller [4, 2, 4] [(1::int, ''a''), (2, ''b'')]
        (\<lambda>k n. (Some (k, ''loaded''), Suc n)) fst None (0::nat))) 4 = 2
   \<and> length (filter (\<lambda>obj. fst obj = 4)
        (objects (crossFiller [4, 2, 4] [(1::int, ''a''), (2, ''b'')]
        (\<lambda>k n. (Some (k, ''loaded''), Suc n)) fst None (0::nat)))) = 2"
proof -
  have a: "(4::int) \<notin> set (map fst [(1::int, ''a''), (2, ''b'')])" by simp
  have l: "\<forall>k' s'. case fst ((\<lambda>k n. (Some (k, ''loaded''), Suc n)) k' (s'::nat)) of
             None \<Rightarrow> k' \<noteq> (4::int) | Some obj \<Rightarrow> fst obj = k'"
    by simp
  from crossFiller_duplicate_keys[OF a, of "[4, 2, 4]"
      "\<lambda>k n. (Some (k, ''loaded''), Suc n)" None "0::nat"] l
  show ?thesis by simp
qed

end
